theory Spec2Isabelle
  imports Main "HOL-Library.Sublist"
begin

section \<open>Data model\<close>

text \<open>
  The task and task-list resources of the storage API, as the script reads them.
  A field that JavaScript may find undefined is an option; \<open>truthy\<close> is the
  JavaScript truth value of such a field when it holds a string (undefined and the empty
  string are falsy). Identifiers are opaque; they are modelled as natural numbers.
\<close>

datatype status = NeedsAction | Completed

record link =
  link_type :: string
  link_url :: "string option"

record task =
  task_id :: nat
  title :: string
  task_notes :: "string option"
  status :: status
  due :: "string option"
  recurrence :: "string option"
  links :: "link list option"
  completed :: "string option"

text \<open>What \<open>TaskService.move\<close> sets on the object of \<open>Tasks.newTask()\<close>: a title, the
  notes, and a due value when the source has one. Nothing else is ever assigned.\<close>

record new_task =
  new_title :: string
  new_notes :: string
  new_due :: "string option"

definition truthy :: "string option \<Rightarrow> bool" where
  "truthy v = (case v of None \<Rightarrow> False | Some s \<Rightarrow> s \<noteq> [])"

text \<open>\<open>task.notes || ""\<close>\<close>

definition notes_or_empty :: "task \<Rightarrow> string" where
  "notes_or_empty t = (case task_notes t of None \<Rightarrow> [] | Some s \<Rightarrow> s)"

text \<open>\<open>String.prototype.includes\<close> is containment as a contiguous substring.\<close>

definition js_includes :: "string \<Rightarrow> string \<Rightarrow> bool" where
  "js_includes s x = sublist x s"

section \<open>TaskService.move: the task built for the destination\<close>

definition email_tag :: string where
  "email_tag = '' [from email]''"

definition email_block :: "string \<Rightarrow> string" where
  "email_block url = [CHR 10, CHR 10] @ ''---'' @ [CHR 10] @ ''Original Email: '' @ url"

text \<open>\<open>task.links.find(link => link.type === 'email')\<close>, when \<open>task.links\<close> is truthy and
  \<open>some\<close> such link exists.\<close>

definition email_link :: "task \<Rightarrow> link option" where
  "email_link t =
     (case links t of
        None \<Rightarrow> None
      | Some ls \<Rightarrow> find (\<lambda>l. link_type l = ''email'') ls)"

definition move_new_task :: "task \<Rightarrow> new_task" where
  "move_new_task t =
     (let newTitle = title t;
          newNotes = notes_or_empty t;
          newDue = (if truthy (due t) then due t else None)
      in case email_link t of
           None \<Rightarrow> \<lparr>new_title = newTitle, new_notes = newNotes, new_due = newDue\<rparr>
         | Some l \<Rightarrow>
             (case link_url l of
                None \<Rightarrow> \<lparr>new_title = newTitle, new_notes = newNotes, new_due = newDue\<rparr>
              | Some emailLink \<Rightarrow>
                  if emailLink \<noteq> [] \<and> \<not> js_includes newNotes emailLink
                  then \<lparr>new_title = newTitle @ email_tag,
                        new_notes = newNotes @ email_block emailLink,
                        new_due = newDue\<rparr>
                  else \<lparr>new_title = newTitle, new_notes = newNotes, new_due = newDue\<rparr>))"

section \<open>The rollover counter in the notes\<close>

text \<open>
  \<open>migrateIncompleteTasks\<close> searches the notes with \<open>/Rollover Count: (\d+)/\<close>. The
  regular expression matches at the leftmost position where the marker is followed by a
  decimal digit, and the group takes the longest run of digits there.
  \<open>regex_find\<close> returns the text before the match, the digits of the group and the text
  after the match.
\<close>

definition marker :: string where
  "marker = ''Rollover Count: ''"

text \<open>\<open>\d\<close>: the characters \<open>0\<close> to \<open>9\<close>, codes 48 to 57.\<close>

definition is_digit :: "char \<Rightarrow> bool" where
  "is_digit c = (48 \<le> (of_char c :: nat) \<and> (of_char c :: nat) \<le> 57)"

definition match_here :: "string \<Rightarrow> (string \<times> string) option" where
  "match_here s =
     (if prefix marker s
      then (let r = drop (length marker) s;
                ds = takeWhile is_digit r
            in if ds = [] then None else Some (ds, dropWhile is_digit r))
      else None)"

fun regex_find :: "string \<Rightarrow> (string \<times> string \<times> string) option" where
  "regex_find [] = None"
| "regex_find (c # cs) =
     (case match_here (c # cs) of
        Some (ds, post) \<Rightarrow> Some ([], ds, post)
      | None \<Rightarrow>
          (case regex_find cs of
             None \<Rightarrow> None
           | Some (pre, ds, post) \<Rightarrow> Some (c # pre, ds, post)))"

text \<open>\<open>notes.match(/Rollover Count: (\d+)/)\<close>: the group of the first match, if any.\<close>

definition match_count :: "string \<Rightarrow> string option" where
  "match_count s = map_option (\<lambda>(pre, ds, post). ds) (regex_find s)"

text \<open>\<open>notes.replace(/Rollover Count: \d+/, r)\<close>: the first match replaced by \<open>r\<close>. The
  replacement the script passes holds no \<open>$\<close>, so it is inserted as it is.\<close>

definition replace_count :: "string \<Rightarrow> string \<Rightarrow> string" where
  "replace_count s r =
     (case regex_find s of None \<Rightarrow> s | Some (pre, ds, post) \<Rightarrow> pre @ r @ post)"

text \<open>
  \<open>parseInt(match[1], 10)\<close> on a run of decimal digits, and the decimal rendering of the
  incremented count in the template string. The count is a natural number here;
  JavaScript holds it in a double, which is the same number below \<open>2^53\<close>.
\<close>

definition digit_val :: "char \<Rightarrow> nat" where
  "digit_val c = of_char c - 48"

definition parseInt :: "string \<Rightarrow> nat" where
  "parseInt ds = foldl (\<lambda>a c. 10 * a + digit_val c) 0 ds"

definition digit_char :: "nat \<Rightarrow> char" where
  "digit_char d = char_of (48 + d)"

fun to_string :: "nat \<Rightarrow> string" where
  "to_string n = (if n < 10 then [digit_char n] else to_string (n div 10) @ [digit_char (n mod 10)])"

declare to_string.simps [simp del]

text \<open>Lines 151 to 158 of \<open>migrateIncompleteTasks\<close>: the notes written back to the task
  before it is moved.\<close>

definition rollover_notes :: "string \<Rightarrow> string" where
  "rollover_notes n =
     (case match_count n of
        Some ds \<Rightarrow> replace_count n (marker @ to_string (parseInt ds + 1))
      | None \<Rightarrow> n @ (if n \<noteq> [] then [CHR 10, CHR 10] else []) @ marker @ ''1'')"

text \<open>Every position of a text at which the regular expression matches, with the digits
  matched there. Two matches never overlap (a match starts with \<open>R\<close>, which occurs
  nowhere else in a match), so these are the rollover fragments of the text, from left to
  right.\<close>

fun fragments :: "string \<Rightarrow> string list" where
  "fragments [] = []"
| "fragments (c # cs) =
     (case match_here (c # cs) of
        Some (ds, post) \<Rightarrow> ds # fragments cs
      | None \<Rightarrow> fragments cs)"

section \<open>The collaborators\<close>

text \<open>
  The script runs against the Google Tasks service, a spreadsheet, the mail service, the
  script lock and the clock. None of them is code of the repository; they are modelled by
  a \<open>world\<close> that follows the contracts of section 6 of the specification:
  \<^item> the store holds the task lists in enumeration order and the tasks of each list, and
    numbers new lists and tasks from a counter; a listing returns the whole sequence in
    one page;
  \<^item> every call of a remote service may throw: it takes the next entry of \<open>faults\<close>,
    and throws the message found there, if any (no entry left: no fault);
  \<^item> the k-th evaluation of \<open>new Date()\<close> returns \<open>clock k\<close>, in milliseconds;
  \<^item> the "Runs" tab of the log spreadsheet is the list of its data rows, or absent.
  A computation takes a state and returns a thrown message (\<open>Inl\<close>) or a value (\<open>Inr\<close>)
  with the state it leaves behind.
\<close>

type_synonym ('a, 's) prog = "'s \<Rightarrow> (string + 'a) \<times> 's"

definition ret :: "'a \<Rightarrow> ('a, 's) prog" where
  "ret x = (\<lambda>s. (Inr x, s))"

definition throw :: "string \<Rightarrow> ('a, 's) prog" where
  "throw e = (\<lambda>s. (Inl e, s))"

definition bind :: "('a, 's) prog \<Rightarrow> ('a \<Rightarrow> ('b, 's) prog) \<Rightarrow> ('b, 's) prog" where
  "bind m f = (\<lambda>s. case m s of (Inl e, s') \<Rightarrow> (Inl e, s') | (Inr x, s') \<Rightarrow> f x s')"

definition try_catch :: "('a, 's) prog \<Rightarrow> (string \<Rightarrow> ('a, 's) prog) \<Rightarrow> ('a, 's) prog" where
  "try_catch m h = (\<lambda>s. case m s of (Inl e, s') \<Rightarrow> h e s' | (Inr x, s') \<Rightarrow> (Inr x, s'))"

fun for_each :: "('a \<Rightarrow> (unit, 's) prog) \<Rightarrow> 'a list \<Rightarrow> (unit, 's) prog" where
  "for_each f [] s = (Inr (), s)"
| "for_each f (x # xs) s =
     (case f x s of (Inl e, s') \<Rightarrow> (Inl e, s') | (Inr u, s') \<Rightarrow> for_each f xs s')"

datatype lock_state = Free | HeldByOther | HeldByRun

record tasklist =
  list_id :: nat
  list_title :: string

record log_row =
  row_timestamp :: int
  row_inboxAdds :: nat
  row_listDeleted :: nat
  row_listCreated :: nat
  row_notes :: string

record email =
  mail_to :: string
  mail_subject :: string
  mail_body :: string

record world =
  tasklists :: "tasklist list"
  tasks :: "nat \<Rightarrow> task list"
  next_id :: nat
  clock :: "nat \<Rightarrow> int"
  reads :: nat
  faults :: "string option list"
  lock :: lock_state
  runs_tab :: "log_row list option"
  outbox :: "email list"

record stats =
  timestamp :: int
  inboxAdds :: nat
  listDeleted :: nat
  listCreated :: nat
  inboxMoves :: nat
  completedTasks :: "(string \<times> string option) list"
  run_notes :: string

text \<open>The script properties, as the getters of \<open>config.js\<close> resolve them, with the
  functions of the host that depend on the configured time zone only.\<close>

record config =
  inboxListName :: string
  dailyListPrefix :: string
  executionTimeoutSeconds :: int
  autoMoveDueTasks :: bool
  trackRolloverCount :: bool
  weeklyDigestDay :: nat
  logSheetId :: "string option"
  userEmail :: string
  formatDate :: "int \<Rightarrow> string \<Rightarrow> string"
  getDay :: "int \<Rightarrow> nat"
  renderDigest :: "int list \<Rightarrow> log_row list \<Rightarrow> string"

definition remote :: "(unit, world) prog" where
  "remote w =
     (case faults w of
        [] \<Rightarrow> (Inr (), w)
      | None # fs \<Rightarrow> (Inr (), w\<lparr>faults := fs\<rparr>)
      | Some e # fs \<Rightarrow> (Inl e, w\<lparr>faults := fs\<rparr>))"

definition new_Date :: "world \<Rightarrow> int \<times> world" where
  "new_Date w = (clock w (reads w), w\<lparr>reads := reads w + 1\<rparr>)"

text \<open>A task as the store creates it from the inserted resource: a fresh identifier, the
  status of a new task, and the fields the resource carries.\<close>

definition created_task :: "nat \<Rightarrow> new_task \<Rightarrow> task" where
  "created_task i r =
     \<lparr>task_id = i, title = new_title r, task_notes = Some (new_notes r),
      status = NeedsAction, due = new_due r, recurrence = None, links = None,
      completed = None\<rparr>"

definition Tasklists_list :: "(tasklist list, world) prog" where
  "Tasklists_list = bind remote (\<lambda>u w. (Inr (tasklists w), w))"

definition Tasklists_insert :: "string \<Rightarrow> (tasklist, world) prog" where
  "Tasklists_insert ttl =
     bind remote (\<lambda>u w.
       let l = \<lparr>list_id = next_id w, list_title = ttl\<rparr>
       in (Inr l, w\<lparr>tasklists := tasklists w @ [l],
                     tasks := (tasks w)(next_id w := []),
                     next_id := next_id w + 1\<rparr>))"

definition Tasklists_remove :: "nat \<Rightarrow> (unit, world) prog" where
  "Tasklists_remove lid =
     bind remote (\<lambda>u w.
       (Inr (), w\<lparr>tasklists := filter (\<lambda>l. list_id l \<noteq> lid) (tasklists w),
                   tasks := (tasks w)(lid := [])\<rparr>))"

definition Tasks_list :: "nat \<Rightarrow> (task list, world) prog" where
  "Tasks_list lid = bind remote (\<lambda>u w. (Inr (tasks w lid), w))"

definition Tasks_insert :: "new_task \<Rightarrow> nat \<Rightarrow> (task, world) prog" where
  "Tasks_insert r lid =
     bind remote (\<lambda>u w.
       let t = created_task (next_id w) r
       in (Inr t, w\<lparr>tasks := (tasks w)(lid := t # tasks w lid),
                     next_id := next_id w + 1\<rparr>))"

definition Tasks_patch :: "string \<Rightarrow> nat \<Rightarrow> nat \<Rightarrow> (task, world) prog" where
  "Tasks_patch n lid tid =
     bind remote (\<lambda>u w.
       case find (\<lambda>t. task_id t = tid) (tasks w lid) of
         None \<Rightarrow> (Inl ''Task not found.'', w)
       | Some t \<Rightarrow>
           (Inr (t\<lparr>task_notes := Some n\<rparr>),
            w\<lparr>tasks := (tasks w)(lid :=
                 map (\<lambda>x. if task_id x = tid then x\<lparr>task_notes := Some n\<rparr> else x)
                   (tasks w lid))\<rparr>))"

definition Tasks_remove :: "nat \<Rightarrow> nat \<Rightarrow> (unit, world) prog" where
  "Tasks_remove lid tid =
     bind remote (\<lambda>u w.
       (Inr (), w\<lparr>tasks := (tasks w)(lid := filter (\<lambda>t. task_id t \<noteq> tid) (tasks w lid))\<rparr>))"

definition sendEmail :: "string \<Rightarrow> string \<Rightarrow> string \<Rightarrow> (unit, world) prog" where
  "sendEmail rcpt subj txt =
     bind remote (\<lambda>u w.
       (Inr (), w\<lparr>outbox := outbox w @ [\<lparr>mail_to = rcpt, mail_subject = subj, mail_body = txt\<rparr>]\<rparr>))"

definition tryLock :: "world \<Rightarrow> bool \<times> world" where
  "tryLock w = (if lock w = Free then (True, w\<lparr>lock := HeldByRun\<rparr>) else (False, w))"

definition releaseLock :: "world \<Rightarrow> world" where
  "releaseLock w = (if lock w = HeldByRun then w\<lparr>lock := Free\<rparr> else w)"

section \<open>services: ListService, TaskService, CompletedTaskService\<close>

definition listAll :: "(tasklist list, world) prog" where
  "listAll = Tasklists_list"

definition getListByTitle :: "string \<Rightarrow> (tasklist option, world) prog" where
  "getListByTitle ttl = bind listAll (\<lambda>ls. ret (find (\<lambda>l. list_title l = ttl) ls))"

definition createList :: "string \<Rightarrow> (tasklist, world) prog" where
  "createList ttl = Tasklists_insert ttl"

definition deleteList :: "nat \<Rightarrow> (unit, world) prog" where
  "deleteList lid = Tasklists_remove lid"

definition listIncompleteTasks :: "nat \<Rightarrow> (task list, world) prog" where
  "listIncompleteTasks lid =
     bind (Tasks_list lid) (\<lambda>allTasks. ret (filter (\<lambda>t. status t = NeedsAction) allTasks))"

text \<open>Modelled from the spec: \<open>TaskService.listAllTasks\<close>, which \<open>processInboxTasks\<close>
  calls and the service file at hand does not define. Section 4.3: it enumerates all
  tasks of the list, with no status filter.\<close>

definition listAllTasks :: "nat \<Rightarrow> (task list, world) prog" where
  "listAllTasks lid = Tasks_list lid"

definition updateNotes :: "nat \<Rightarrow> nat \<Rightarrow> string \<Rightarrow> (task, world) prog" where
  "updateNotes lid tid newNotes = Tasks_patch newNotes lid tid"

definition move :: "task \<Rightarrow> nat \<Rightarrow> nat \<Rightarrow> (unit, world) prog" where
  "move t sourceListId destListId =
     bind (Tasks_insert (move_new_task t) destListId)
       (\<lambda>inserted. Tasks_remove sourceListId (task_id t))"

text \<open>\<open>listCompletedTasks\<close> asks for page after page until no page token comes back and
  filters the merged pages; the store answers in one page, so one listing is made.\<close>

definition listCompletedTasks :: "nat \<Rightarrow> (task list, world) prog" where
  "listCompletedTasks lid =
     bind (Tasks_list lid) (\<lambda>allTasks. ret (filter (\<lambda>t. status t = Completed) allTasks))"

definition getCompletedTasksFromList :: "nat \<Rightarrow> ((string \<times> string option) list, world) prog" where
  "getCompletedTasksFromList lid =
     bind (listCompletedTasks lid) (\<lambda>ts. ret (map (\<lambda>t. (title t, completed t)) ts))"

section \<open>LoggingSheetUtil and DigestMailer\<close>

definition newline2 :: string where
  "newline2 = [CHR 10, CHR 10]"

definition row_of :: "stats \<Rightarrow> log_row" where
  "row_of st =
     \<lparr>row_timestamp = timestamp st, row_inboxAdds = inboxAdds st,
      row_listDeleted = listDeleted st, row_listCreated = listCreated st,
      row_notes = run_notes st\<rparr>"

definition appendRow :: "log_row \<Rightarrow> (unit, world) prog" where
  "appendRow r =
     bind remote (\<lambda>u w. (Inr (), w\<lparr>runs_tab := map_option (\<lambda>rs. rs @ [r]) (runs_tab w)\<rparr>))"

text \<open>\<open>LoggingSheetUtil.setup\<close> opens the spreadsheet and, when the tab is missing, inserts it and appends
  the header row (the header is not a data row).\<close>

definition LoggingSheetUtil_setup :: "config \<Rightarrow> (unit, world) prog" where
  "LoggingSheetUtil_setup cfg =
     try_catch
       (if \<not> truthy (logSheetId cfg) then ret ()
        else bind remote (\<lambda>ss w.
               case runs_tab w of
                 None \<Rightarrow> bind remote (\<lambda>sheet w'. remote (w'\<lparr>runs_tab := Some []\<rparr>)) w
               | Some rs \<Rightarrow> (Inr (), w)))
       (\<lambda>e. sendEmail (userEmail cfg) ''GTaskManager Setup Error''
               (''Failed to set up logging sheet. Please check that LOG_SHEET_ID is valid. Error: '' @ e))"

definition logRun :: "config \<Rightarrow> stats \<Rightarrow> (unit, world) prog" where
  "logRun cfg st =
     try_catch
       (if \<not> truthy (logSheetId cfg) then ret ()
        else bind remote (\<lambda>ss w.
               case runs_tab w of
                 None \<Rightarrow> (Inr (), w)
               | Some rs \<Rightarrow> appendRow (row_of st) w))
       (\<lambda>e. sendEmail (userEmail cfg) ''GTaskManager Logging Failure''
               (''The script could not write to the log sheet.'' @ newline2 @ ''Error: '' @ e))"

text \<open>The digest reads the rows, evaluates \<open>new Date()\<close> eight times and mails the rendered
  table; the rendering is presentation and stays a parameter.\<close>

definition sendWeeklyDigest :: "config \<Rightarrow> (unit, world) prog" where
  "sendWeeklyDigest cfg =
     (if \<not> truthy (logSheetId cfg) then ret ()
      else try_catch
        (bind remote (\<lambda>ss w.
           case runs_tab w of
             None \<Rightarrow> (Inr (), w)
           | Some rs \<Rightarrow>
               bind remote (\<lambda>data w'.
                 sendEmail (userEmail cfg) ''GTaskManager - Weekly Digest''
                   (renderDigest cfg (map (clock w') [reads w' ..< reads w' + 8]) rs)
                   (w'\<lparr>reads := reads w' + 8\<rparr>)) w))
        (\<lambda>e. sendEmail (userEmail cfg) ''GTaskManager Digest Failure''
                (''The script could not generate or send the weekly digest.'' @ newline2 @ ''Error: '' @ e)))"

section \<open>main: migrateIncompleteTasks, rolloverProcess, processInboxTasks, dailyRunner\<close>

definition in_world :: "('a, world) prog \<Rightarrow> ('a, stats \<times> world) prog" where
  "in_world m = (\<lambda>(st, w). case m w of (r, w') \<Rightarrow> (r, (st, w')))"

definition update_stats :: "(stats \<Rightarrow> stats) \<Rightarrow> (unit, stats \<times> world) prog" where
  "update_stats f = (\<lambda>(st, w). (Inr (), (f st, w)))"

text \<open>The body of the loop of \<open>migrateIncompleteTasks\<close> for one task.\<close>

definition migrate_task :: "bool \<Rightarrow> nat \<Rightarrow> nat \<Rightarrow> task \<Rightarrow> (unit, world) prog" where
  "migrate_task trackRollover sourceListId destListId t =
     (if trackRollover
      then bind (updateNotes sourceListId (task_id t) (rollover_notes (notes_or_empty t)))
             (\<lambda>updatedTask. move updatedTask sourceListId destListId)
      else move t sourceListId destListId)"

definition migrateIncompleteTasks :: "config \<Rightarrow> nat \<Rightarrow> nat \<Rightarrow> (nat, world) prog" where
  "migrateIncompleteTasks cfg sourceListId destListId =
     bind (listIncompleteTasks sourceListId) (\<lambda>tasksToMove.
       bind (for_each (migrate_task (trackRolloverCount cfg) sourceListId destListId) tasksToMove)
         (\<lambda>u. ret (length tasksToMove)))"

definition pause_note :: string where
  "pause_note = ''Run paused during rollover due to execution timeout.''"

text \<open>Lines 94 to 97: what the loop does with one stale list once the budget check has
  passed.\<close>

definition process_stale :: "config \<Rightarrow> nat \<Rightarrow> tasklist \<Rightarrow> (unit, stats \<times> world) prog" where
  "process_stale cfg inboxId staleList =
     bind (in_world (migrateIncompleteTasks cfg (list_id staleList) inboxId)) (\<lambda>n.
     bind (update_stats (\<lambda>st. st\<lparr>inboxAdds := inboxAdds st + n\<rparr>)) (\<lambda>u.
     bind (in_world (getCompletedTasksFromList (list_id staleList))) (\<lambda>cs.
     bind (update_stats (\<lambda>st. st\<lparr>completedTasks := completedTasks st @ cs\<rparr>)) (\<lambda>u.
     bind (in_world (deleteList (list_id staleList))) (\<lambda>u.
     update_stats (\<lambda>st. st\<lparr>listDeleted := listDeleted st + 1\<rparr>))))))"

text \<open>\<open>(new Date() - startTime) / 1000 > timeoutSeconds\<close>, on milliseconds.\<close>

definition over_budget :: "config \<Rightarrow> int \<Rightarrow> int \<Rightarrow> bool" where
  "over_budget cfg startTime now = (now - startTime > 1000 * executionTimeoutSeconds cfg)"

fun sweep :: "config \<Rightarrow> int \<Rightarrow> nat \<Rightarrow> tasklist list \<Rightarrow> (unit, stats \<times> world) prog" where
  "sweep cfg startTime inboxId [] s = (Inr (), s)"
| "sweep cfg startTime inboxId (staleList # rest) (st, w) =
     (case new_Date w of
        (now, w1) \<Rightarrow>
          if over_budget cfg startTime now
          then (Inr (), (st\<lparr>run_notes := pause_note\<rparr>, w1))
          else (case process_stale cfg inboxId staleList (st, w1) of
                  (Inl e, s2) \<Rightarrow> (Inl e, s2)
                | (Inr u, s2) \<Rightarrow> sweep cfg startTime inboxId rest s2))"

definition todayListFullName :: "config \<Rightarrow> string \<Rightarrow> string" where
  "todayListFullName cfg todayTitle = dailyListPrefix cfg @ '' '' @ todayTitle"

definition staleLists :: "config \<Rightarrow> string \<Rightarrow> tasklist list \<Rightarrow> tasklist list" where
  "staleLists cfg todayTitle allLists =
     filter (\<lambda>l. prefix (dailyListPrefix cfg) (list_title l)
                \<and> list_title l \<noteq> todayListFullName cfg todayTitle) allLists"

definition rolloverProcess :: "config \<Rightarrow> string \<Rightarrow> int \<Rightarrow> (nat \<times> nat, stats \<times> world) prog" where
  "rolloverProcess cfg todayTitle startTime =
     bind (in_world (LoggingSheetUtil_setup cfg)) (\<lambda>u.
     bind (in_world (getListByTitle (inboxListName cfg))) (\<lambda>inboxList.
       case inboxList of
         None \<Rightarrow> throw (''Inbox list '' @ [CHR 34] @ inboxListName cfg @ [CHR 34] @ '' not found.'')
       | Some inbox \<Rightarrow>
           bind (in_world listAll) (\<lambda>allLists.
           bind (sweep cfg startTime (list_id inbox) (staleLists cfg todayTitle allLists)) (\<lambda>u.
             case find (\<lambda>l. list_title l = todayListFullName cfg todayTitle) allLists of
               None \<Rightarrow>
                 bind (in_world (createList (todayListFullName cfg todayTitle))) (\<lambda>todayList.
                 bind (update_stats (\<lambda>st. st\<lparr>listCreated := listCreated st + 1\<rparr>)) (\<lambda>u.
                   ret (list_id todayList, list_id inbox)))
             | Some todayList \<Rightarrow> ret (list_id todayList, list_id inbox)))))"

definition due_date :: "task \<Rightarrow> string" where
  "due_date t = (case due t of None \<Rightarrow> [] | Some d \<Rightarrow> take 10 d)"

definition inbox_step :: "string \<Rightarrow> nat \<Rightarrow> nat \<Rightarrow> task \<Rightarrow> (unit, stats \<times> world) prog" where
  "inbox_step todayDateString todayListId inboxId t =
     (if \<not> truthy (due t) \<or> truthy (recurrence t) then ret ()
      else if due_date t = todayDateString
      then bind (in_world (move t inboxId todayListId))
             (\<lambda>u. update_stats (\<lambda>st. st\<lparr>inboxMoves := inboxMoves st + 1\<rparr>))
      else ret ())"

definition processInboxTasks :: "config \<Rightarrow> nat \<Rightarrow> nat \<Rightarrow> (unit, stats \<times> world) prog" where
  "processInboxTasks cfg todayListId inboxId =
     bind (in_world (listAllTasks inboxId)) (\<lambda>ts (st, w).
       case new_Date w of
         (today, w1) \<Rightarrow>
           for_each (inbox_step (formatDate cfg today ''yyyy-MM-dd'') todayListId inboxId) ts (st, w1))"

definition initial_stats :: "int \<Rightarrow> stats" where
  "initial_stats startTime =
     \<lparr>timestamp = startTime, inboxAdds = 0, listDeleted = 0, listCreated = 0,
      inboxMoves = 0, completedTasks = [], run_notes = []\<rparr>"

text \<open>The \<open>try\<close> block of \<open>dailyRunner\<close>.\<close>

definition run_body :: "config \<Rightarrow> int \<Rightarrow> (unit, stats \<times> world) prog" where
  "run_body cfg startTime =
     bind (rolloverProcess cfg (formatDate cfg startTime ''MMMM d, yyyy'') startTime)
       (\<lambda>(todayListId, inboxId).
     bind (if autoMoveDueTasks cfg then processInboxTasks cfg todayListId inboxId else ret ()) (\<lambda>u.
     bind (\<lambda>(st, w). in_world (logRun cfg st) (st, w)) (\<lambda>u.
       if getDay cfg startTime = weeklyDigestDay cfg
       then in_world (sendWeeklyDigest cfg) else ret ())))"

text \<open>The \<open>catch\<close> block of \<open>dailyRunner\<close>.\<close>

definition fatal_note :: "string \<Rightarrow> string" where
  "fatal_note e = ''FATAL: '' @ e"

definition on_error :: "config \<Rightarrow> string \<Rightarrow> (unit, stats \<times> world) prog" where
  "on_error cfg e =
     bind (update_stats (\<lambda>st. st\<lparr>run_notes := fatal_note e\<rparr>)) (\<lambda>u.
     bind (\<lambda>(st, w). in_world (logRun cfg st) (st, w)) (\<lambda>u.
       in_world (sendEmail (userEmail cfg) ''Google Tasks Script has failed!''
         (''The daily task rollover script encountered a fatal error and could not complete.''
            @ newline2 @ ''Error: '' @ e))))"

text \<open>\<open>dailyRunner\<close>: the result is \<open>Inl\<close> when an exception leaves the function, which
  only an exception thrown inside the \<open>catch\<close> block can do. The \<open>finally\<close> block
  runs on every path that entered the \<open>try\<close>.\<close>

definition dailyRunner :: "config \<Rightarrow> world \<Rightarrow> (string + unit) \<times> world" where
  "dailyRunner cfg w =
     (case tryLock w of
        (False, w1) \<Rightarrow> (Inr (), w1)
      | (True, w1) \<Rightarrow>
          (case new_Date w1 of
             (startTime, w2) \<Rightarrow>
               (case try_catch (run_body cfg startTime) (on_error cfg) (initial_stats startTime, w2) of
                  (r, (st, w3)) \<Rightarrow> (r, releaseLock w3))))"

section \<open>Notions used to state the properties\<close>

text \<open>One pass of the tracked loop body of \<open>migrateIncompleteTasks\<close> over a task: the
  notes are rewritten, the patched task is handed to \<open>move\<close>, and this is the resource
  inserted in the destination. \<open>migrations ids t\<close> migrates a task once for every
  identifier of \<open>ids\<close>, the identifiers the store gives to the successive copies.\<close>

definition migrated :: "task \<Rightarrow> new_task" where
  "migrated t = move_new_task (t\<lparr>task_notes := Some (rollover_notes (notes_or_empty t))\<rparr>)"





text \<open>A completed task that came from an email.\<close>

definition mail_task :: task where
  "mail_task =
     \<lparr>task_id = 40, title = ''Reply to Ann'', task_notes = Some ''see thread'',
      status = Completed, due = Some ''2025-07-10T23:59:00Z'', recurrence = None,
      links = Some [\<lparr>link_type = ''email'', link_url = Some ''https://mail.example/u/0/#all/18c''\<rparr>],
      completed = Some ''2025-07-09T08:00:00Z''\<rparr>"


text \<open>
  \<open>steps R m\<close>: every run of \<open>m\<close>, whether it returns or throws, relates the state before
  to the state after by \<open>R\<close>. \<open>keeps f m\<close>: no run of \<open>m\<close> changes \<open>f\<close> of the state.
\<close>

definition steps :: "('s \<Rightarrow> 's \<Rightarrow> bool) \<Rightarrow> ('a, 's) prog \<Rightarrow> bool" where
  "steps R m = (\<forall>s r s'. m s = (r, s') \<longrightarrow> R s s')"

definition keeps :: "('s \<Rightarrow> 'x) \<Rightarrow> ('a, 's) prog \<Rightarrow> bool" where
  "keeps f m = steps (\<lambda>s s'. f s' = f s) m"

text \<open>
  \<open>touches_only A w w'\<close>: from \<open>w\<close> to \<open>w'\<close> only the tasks of the lists in \<open>A\<close>, the
  identifier counter and the pending faults may have changed.
\<close>

definition touches_only :: "nat set \<Rightarrow> world \<Rightarrow> world \<Rightarrow> bool" where
  "touches_only A w w' =
     (tasklists w' = tasklists w \<and> (\<forall>x. x \<notin> A \<longrightarrow> tasks w' x = tasks w x)
      \<and> clock w' = clock w \<and> reads w' = reads w \<and> lock w' = lock w
      \<and> runs_tab w' = runs_tab w \<and> outbox w' = outbox w)"

text \<open>
  What any run of the sweep guarantees: no list is added, \<open>listCreated\<close> and the lock
  are as before.
\<close>

definition sweep_frame :: "stats \<times> world \<Rightarrow> stats \<times> world \<Rightarrow> bool" where
  "sweep_frame s s' =
     (set (tasklists (snd s')) \<subseteq> set (tasklists (snd s))
      \<and> listCreated (fst s') = listCreated (fst s) \<and> lock (snd s') = lock (snd s))"

abbreviation (input) lock_of :: "stats \<times> world \<Rightarrow> lock_state" where
  "lock_of s \<equiv> lock (snd s)"

text \<open>
  \<open>quiet w\<close>: no fault is pending, every further call of a service succeeds.
\<close>

definition quiet :: "world \<Rightarrow> bool" where
  "quiet w = (\<forall>f \<in> set (faults w). f = None)"

text \<open>
  The mail of the \<open>catch\<close> block of \<open>dailyRunner\<close>.
\<close>

definition failure_mail :: "config \<Rightarrow> string \<Rightarrow> email" where
  "failure_mail cfg e =
     \<lparr>mail_to = userEmail cfg, mail_subject = ''Google Tasks Script has failed!'',
      mail_body = ''The daily task rollover script encountered a fatal error and could not complete.''
                  @ newline2 @ ''Error: '' @ e\<rparr>"

text \<open>
  The part of the world that logging and mail never change.
\<close>

definition store_of :: "world \<Rightarrow> tasklist list \<times> (nat \<Rightarrow> task list) \<times> nat \<times> lock_state" where
  "store_of w = (tasklists w, tasks w, next_id w, lock w)"

text \<open>
  A concrete configuration and a concrete world: the inbox, two stale daily lists and an
  unrelated list, on July 10, 2025.
\<close>

definition demo_config :: config where
  "demo_config =
     \<lparr>inboxListName = ''Inbox'', dailyListPrefix = ''[Daily]'', executionTimeoutSeconds = 270,
      autoMoveDueTasks = True, trackRolloverCount = True, weeklyDigestDay = 1,
      logSheetId = Some ''sheet-1'', userEmail = ''owner@example.org'',
      formatDate = (\<lambda>t p. if p = ''yyyy-MM-dd'' then ''2025-07-10'' else ''July 10, 2025''),
      getDay = (\<lambda>t. 4), renderDigest = (\<lambda>ts rs. ''digest'')\<rparr>"

definition plain_task :: "nat \<Rightarrow> string \<Rightarrow> status \<Rightarrow> task" where
  "plain_task i ttl s =
     \<lparr>task_id = i, title = ttl, task_notes = None, status = s, due = None, recurrence = None,
      links = None, completed = (if s = Completed then Some ''2025-07-09T18:00:00Z'' else None)\<rparr>"

definition demo_lists :: "tasklist list" where
  "demo_lists =
     [\<lparr>list_id = 1, list_title = ''Inbox''\<rparr>,
      \<lparr>list_id = 2, list_title = ''[Daily] July 8, 2025''\<rparr>,
      \<lparr>list_id = 3, list_title = ''[Daily] July 9, 2025''\<rparr>,
      \<lparr>list_id = 4, list_title = ''Groceries''\<rparr>]"

definition pay_rent :: task where
  "pay_rent = (plain_task 12 ''Pay rent'' Completed)\<lparr>due := Some ''2025-07-10T23:59:00Z''\<rparr>"

definition stand_up :: task where
  "stand_up = (plain_task 13 ''Stand-up'' NeedsAction)
                \<lparr>due := Some ''2025-07-10T00:00:00Z'', recurrence := Some ''RRULE:FREQ=DAILY''\<rparr>"

definition someday :: task where
  "someday = plain_task 14 ''Someday'' NeedsAction"

definition dentist :: task where
  "dentist = (plain_task 15 ''Dentist'' NeedsAction)\<lparr>due := Some ''2025-07-11T09:00:00Z''\<rparr>"

definition demo_tasks :: "nat \<Rightarrow> task list" where
  "demo_tasks l =
     (if l = 1 then [pay_rent, stand_up, someday, dentist]
      else if l = 2 then [plain_task 20 ''Buy milk'' NeedsAction, plain_task 21 ''Call Bob'' Completed]
      else if l = 3 then [plain_task 30 ''Write report'' NeedsAction]
      else [])"

definition demo_world :: world where
  "demo_world =
     \<lparr>tasklists = demo_lists, tasks = demo_tasks, next_id = 100,
      clock = (\<lambda>k. 1000 + int k), reads = 0, faults = [],
      lock = Free, runs_tab = None, outbox = []\<rparr>"

definition demo_stale :: "tasklist list" where
  "demo_stale = staleLists demo_config ''July 10, 2025'' demo_lists"

definition quota_world :: world where
  "quota_world = demo_world\<lparr>faults := replicate 11 None @ [Some ''Quota exceeded'']\<rparr>"

definition today_world :: world where
  "today_world =
     demo_world\<lparr>tasklists := demo_lists @ [\<lparr>list_id = 5, list_title = ''[Daily] July 10, 2025''\<rparr>]\<rparr>"

text \<open>
  The condition under which \<open>processInboxTasks\<close> relocates a task, for today's date
  string \<open>d\<close>.
\<close>

definition due_today :: "string \<Rightarrow> task \<Rightarrow> bool" where
  "due_today d t = (truthy (due t) \<and> \<not> truthy (recurrence t) \<and> due_date t = d)"

text \<open>
  Relations between the states before and after a part of the inbox sweep: a given task
  is still in the inbox; today's list has gained copies of relocated tasks only; today's list
  has lost nothing and the inbox has gained nothing.
\<close>

definition stays :: "nat \<Rightarrow> task \<Rightarrow> stats \<times> world \<Rightarrow> stats \<times> world \<Rightarrow> bool" where
  "stays inboxId t s s' = (t \<in> set (tasks (snd s) inboxId) \<longrightarrow> t \<in> set (tasks (snd s') inboxId))"

definition copies_only :: "string \<Rightarrow> nat \<Rightarrow> stats \<times> world \<Rightarrow> stats \<times> world \<Rightarrow> bool" where
  "copies_only d todayListId s s' =
     (\<forall>y \<in> set (tasks (snd s') todayListId).
        y \<in> set (tasks (snd s) todayListId)
        \<or> (\<exists>x j. due_today d x \<and> y = created_task j (move_new_task x)))"

definition one_way :: "nat \<Rightarrow> nat \<Rightarrow> stats \<times> world \<Rightarrow> stats \<times> world \<Rightarrow> bool" where
  "one_way inboxId todayListId s s' =
     (set (tasks (snd s) todayListId) \<subseteq> set (tasks (snd s') todayListId)
      \<and> set (tasks (snd s') inboxId) \<subseteq> set (tasks (snd s) inboxId))"

section \<open>Decimal rendering and the regular expression\<close>








lemma marker_length: "length marker = 16"
  by (simp add: marker_def)




lemma match_here_not_R: "c \<noteq> CHR ''R'' \<Longrightarrow> match_here (c # cs) = None"
  by (simp add: match_here_def marker_def)

lemma fragments_no_R: "CHR ''R'' \<notin> set xs \<Longrightarrow> fragments (xs @ ys) = fragments ys"
  by (induction xs) (auto simp: match_here_not_R)

lemma fragments_no_R': "CHR ''R'' \<notin> set xs \<Longrightarrow> fragments xs = []"
  using fragments_no_R[of xs "[]"] by simp












section \<open>TaskService.move\<close>

lemma js_includes_append: "js_includes (n @ email_block u) u"
  unfolding js_includes_def email_block_def sublist_def
  by (rule exI[of _ "n @ [CHR 10, CHR 10] @ ''---'' @ [CHR 10] @ ''Original Email: ''"], rule exI[of _ "[]"]) simp

lemma move_new_task_cases:
  "(new_notes (move_new_task t) = notes_or_empty t \<and> new_title (move_new_task t) = title t)
   \<or> (\<exists>l u. email_link t = Some l \<and> link_url l = Some u \<and> u \<noteq> []
        \<and> new_notes (move_new_task t) = notes_or_empty t @ email_block u
        \<and> new_title (move_new_task t) = title t @ email_tag)"
  by (auto simp: move_new_task_def Let_def split: option.splits)

lemma move_new_task_no_link:
  "email_link t = None \<Longrightarrow>
   move_new_task t = \<lparr>new_title = title t, new_notes = notes_or_empty t,
                      new_due = (if truthy (due t) then due t else None)\<rparr>"
  by (simp add: move_new_task_def Let_def)

text \<open>
  C5. Moving a task a second time adds no second "Original Email:" block and no second
  title tag: whether the copy has lost its links (as a task created by \<open>move\<close> has) or
  still carries the links of the original, a second \<open>move\<close> leaves notes and title as the
  first one made them, and the first one appended the block and the tag at most once.
  With the links kept, this is the guard on the URL being contained in the notes.
\<close>

theorem email_block_at_most_once:
  assumes "title t1 = new_title (move_new_task t)"
    and "task_notes t1 = Some (new_notes (move_new_task t))"
    and "links t1 = None \<or> links t1 = links t"
  shows "new_notes (move_new_task t1) = new_notes (move_new_task t)
       \<and> new_title (move_new_task t1) = new_title (move_new_task t)
       \<and> ((new_notes (move_new_task t) = notes_or_empty t
            \<and> new_title (move_new_task t) = title t)
          \<or> (\<exists>u. new_notes (move_new_task t) = notes_or_empty t @ email_block u
                \<and> new_title (move_new_task t) = title t @ email_tag))"
proof -
  have n1: "notes_or_empty t1 = new_notes (move_new_task t)"
    using assms(2) by (simp add: notes_or_empty_def)
  have same: "new_notes (move_new_task t1) = notes_or_empty t1 \<and> new_title (move_new_task t1) = title t1"
  proof (cases "email_link t1")
    case None
    then show ?thesis by (simp add: move_new_task_no_link)
  next
    case (Some l)
    with assms(3) have el: "email_link t = Some l" "email_link t1 = Some l"
      by (auto simp: email_link_def)
    show ?thesis
    proof (cases "link_url l")
      case None
      with el show ?thesis by (simp add: move_new_task_def Let_def)
    next
      case (Some u)
      have "u = [] \<or> js_includes (notes_or_empty t1) u"
      proof (cases "u \<noteq> [] \<and> \<not> js_includes (notes_or_empty t) u")
        case True
        with el Some have "new_notes (move_new_task t) = notes_or_empty t @ email_block u"
          by (simp add: move_new_task_def Let_def)
        with n1 show ?thesis by (simp add: js_includes_append)
      next
        case False
        with el Some have "new_notes (move_new_task t) = notes_or_empty t"
          by (auto simp add: move_new_task_def Let_def)
        with n1 False show ?thesis by auto
      qed
      with el Some show ?thesis by (auto simp: move_new_task_def Let_def)
    qed
  qed
  from same n1 assms(1) move_new_task_cases[of t] show ?thesis by auto
qed

theorem email_block_at_most_once_witness:
  "new_notes (move_new_task (created_task 100 (move_new_task mail_task)))
     = new_notes (move_new_task mail_task)
   \<and> new_title (move_new_task (created_task 100 (move_new_task mail_task)))
     = new_title (move_new_task mail_task)
   \<and> new_notes (move_new_task (mail_task\<lparr>task_notes := Some (new_notes (move_new_task mail_task)),
                                           title := new_title (move_new_task mail_task)\<rparr>))
     = new_notes (move_new_task mail_task)"
  using email_block_at_most_once [of "created_task 100 (move_new_task mail_task)" mail_task]
    email_block_at_most_once [of "mail_task\<lparr>task_notes := Some (new_notes (move_new_task mail_task)),
                                           title := new_title (move_new_task mail_task)\<rparr>" mail_task]
  by (simp add: created_task_def)

section \<open>The rollover counter\<close>



















section \<open>Reasoning about computations\<close>

lemma stepsD: "steps R m \<Longrightarrow> m s = (r, s') \<Longrightarrow> R s s'"
  by (auto simp: steps_def)

lemma keepsD: "keeps f m \<Longrightarrow> m s = (r, s') \<Longrightarrow> f s' = f s"
  by (auto simp: keeps_def steps_def)

lemma bind_Inr_iff:
  "bind m f s = (Inr y, s'') \<longleftrightarrow> (\<exists>x s'. m s = (Inr x, s') \<and> f x s' = (Inr y, s''))"
  by (auto simp: bind_def split: prod.splits sum.splits)

lemma bind_cases:
  assumes "bind m f s = (r, s'')"
  obtains (fail) e where "m s = (Inl e, s'')" "r = Inl e"
        | (ok) x s' where "m s = (Inr x, s')" "f x s' = (r, s'')"
  using assms by (auto simp: bind_def split: prod.splits sum.splits)

lemma try_catch_cases:
  assumes "try_catch m h s = (r, s'')"
  obtains (caught) e s' where "m s = (Inl e, s')" "h e s' = (r, s'')"
        | (ok) x where "m s = (Inr x, s'')" "r = Inr x"
  using assms by (auto simp: try_catch_def split: prod.splits sum.splits)

lemma for_each_cases:
  assumes "for_each g (x # xs) s = (r, s'')"
  obtains (fail) e where "g x s = (Inl e, s'')" "r = Inl e"
        | (ok) u s' where "g x s = (Inr u, s')" "for_each g xs s' = (r, s'')"
  using assms by (auto split: prod.splits sum.splits)

lemma steps_ret: "reflp R \<Longrightarrow> steps R (ret x)"
  by (auto simp: steps_def ret_def reflp_def)

lemma steps_throw: "reflp R \<Longrightarrow> steps R (throw e)"
  by (auto simp: steps_def throw_def reflp_def)

lemma steps_bind:
  assumes "transp R" "steps R m" "\<And>x. steps R (g x)"
  shows "steps R (bind m g)"
  unfolding steps_def
proof (intro allI impI)
  fix s r s' assume "bind m g s = (r, s')"
  then show "R s s'"
  proof (cases rule: bind_cases)
    case (fail e)
    with assms(2) show ?thesis by (auto dest: stepsD)
  next
    case (ok x s1)
    with assms(2,3) have "R s s1" "R s1 s'" by (auto dest: stepsD)
    with assms(1) show ?thesis by (auto dest: transpD)
  qed
qed

lemma steps_try_catch:
  assumes "transp R" "steps R m" "\<And>e. steps R (h e)"
  shows "steps R (try_catch m h)"
  unfolding steps_def
proof (intro allI impI)
  fix s r s' assume "try_catch m h s = (r, s')"
  then show "R s s'"
  proof (cases rule: try_catch_cases)
    case (caught e s1)
    with assms(2,3) have "R s s1" "R s1 s'" by (auto dest: stepsD)
    with assms(1) show ?thesis by (auto dest: transpD)
  next
    case (ok x)
    with assms(2) show ?thesis by (auto dest: stepsD)
  qed
qed

lemma steps_for_each:
  assumes "reflp R" "transp R" "\<And>x. x \<in> set xs \<Longrightarrow> steps R (g x)"
  shows "steps R (for_each g xs)"
  using assms(3)
proof (induction xs)
  case Nil
  from assms(1) show ?case by (simp add: steps_def reflp_def)
next
  case (Cons x xs)
  have kx: "steps R (g x)" and kxs: "steps R (for_each g xs)"
    using Cons by auto
  show ?case
    unfolding steps_def
  proof (intro allI impI)
    fix s r s' assume "for_each g (x # xs) s = (r, s')"
    then show "R s s'"
    proof (cases rule: for_each_cases)
      case (fail e)
      with kx show ?thesis by (auto dest: stepsD)
    next
      case (ok u s1)
      with kx kxs have "R s s1" "R s1 s'" by (auto dest: stepsD)
      with assms(2) show ?thesis by (auto dest: transpD)
    qed
  qed
qed

lemma steps_in_world: "steps R m \<Longrightarrow> steps (\<lambda>s s'. R (snd s) (snd s') \<and> fst s' = fst s) (in_world m)"
  by (auto simp: steps_def in_world_def split: prod.splits)

lemma steps_weaken: "steps R m \<Longrightarrow> (\<And>s s'. R s s' \<Longrightarrow> Q s s') \<Longrightarrow> steps Q m"
  by (auto simp: steps_def)

lemma reflp_keeps: "reflp (\<lambda>s s'. f s' = f s)"
  by (simp add: reflp_def)

lemma transp_keeps: "transp (\<lambda>s s'. f s' = f s)"
  by (simp add: transp_def)

lemma keeps_ret: "keeps f (ret x)"
  unfolding keeps_def by (rule steps_ret[OF reflp_keeps])

lemma keeps_throw: "keeps f (throw e)"
  unfolding keeps_def by (rule steps_throw[OF reflp_keeps])

lemma keeps_bind: "keeps f m \<Longrightarrow> (\<And>x. keeps f (g x)) \<Longrightarrow> keeps f (bind m g)"
  unfolding keeps_def by (rule steps_bind[OF transp_keeps])

lemma keeps_try_catch: "keeps f m \<Longrightarrow> (\<And>e. keeps f (h e)) \<Longrightarrow> keeps f (try_catch m h)"
  unfolding keeps_def by (rule steps_try_catch[OF transp_keeps])

lemma keeps_for_each: "(\<And>x. x \<in> set xs \<Longrightarrow> keeps f (g x)) \<Longrightarrow> keeps f (for_each g xs)"
  unfolding keeps_def by (rule steps_for_each[OF reflp_keeps transp_keeps])

lemma keeps_in_world: "keeps f m \<Longrightarrow> keeps (\<lambda>s. f (snd s)) (in_world m)"
  by (auto simp: keeps_def steps_def in_world_def split: prod.splits)

lemma keeps_in_world_stats: "keeps (\<lambda>s. f (fst s)) (in_world m)"
  by (auto simp: keeps_def steps_def in_world_def split: prod.splits)

lemma keeps_update_stats: "keeps (\<lambda>s. f (snd s)) (update_stats g)"
  by (auto simp: keeps_def steps_def update_stats_def)

lemma keeps_update_stats_field: "(\<And>st. f (g st) = f st) \<Longrightarrow> keeps (\<lambda>s. f (fst s)) (update_stats g)"
  by (auto simp: keeps_def steps_def update_stats_def)

section \<open>Effects of the store operations\<close>

lemma remote_world: "remote w = (r, w') \<Longrightarrow> w' = w\<lparr>faults := tl (faults w)\<rparr>"
  by (cases w) (auto simp: remote_def split: list.splits option.splits)

lemma keeps_remote: "(\<And>w fs. f (w\<lparr>faults := fs\<rparr>) = f w) \<Longrightarrow> keeps f remote"
  by (auto simp: keeps_def steps_def dest!: remote_world)

lemma keeps_store_ops:
  fixes f :: "world \<Rightarrow> 'x"
  assumes "\<And>w fs. f (w\<lparr>faults := fs\<rparr>) = f w"
    and "\<And>w ls. f (w\<lparr>tasklists := ls\<rparr>) = f w"
    and "\<And>w ts. f (w\<lparr>tasks := ts\<rparr>) = f w"
    and "\<And>w n. f (w\<lparr>next_id := n\<rparr>) = f w"
  shows "keeps f Tasklists_list" "keeps f (Tasklists_insert ttl)"
  "keeps f (Tasklists_remove lid)" "keeps f (Tasks_list lid)" "keeps f (Tasks_insert r lid)"
  "keeps f (Tasks_patch n lid tid)" "keeps f (Tasks_remove lid tid)"
  unfolding keeps_def steps_def Tasklists_list_def Tasklists_insert_def Tasklists_remove_def Tasks_list_def
    Tasks_insert_def Tasks_patch_def Tasks_remove_def
  by (auto simp: Let_def assms dest!: remote_world elim!: bind_cases split: option.splits)

lemma keeps_sheet_ops:
  fixes f :: "world \<Rightarrow> 'x"
  assumes "\<And>w fs. f (w\<lparr>faults := fs\<rparr>) = f w"
    and "\<And>w rs. f (w\<lparr>runs_tab := rs\<rparr>) = f w"
    and "\<And>w ms. f (w\<lparr>outbox := ms\<rparr>) = f w"
  shows "keeps f (sendEmail a b c)" "keeps f (appendRow row)"
  unfolding keeps_def steps_def sendEmail_def appendRow_def
  by (auto simp: Let_def assms dest!: remote_world elim!: bind_cases split: option.splits)

lemma reflp_touches_only: "reflp (touches_only A)"
  by (simp add: reflp_def touches_only_def)

lemma transp_touches_only: "transp (touches_only A)"
  by (auto simp: transp_def touches_only_def)

lemma touches_only_mono: "A \<subseteq> B \<Longrightarrow> touches_only A w w' \<Longrightarrow> touches_only B w w'"
  by (auto simp: touches_only_def)

lemma touches_task_ops:
  "steps (touches_only {}) Tasklists_list"
  "steps (touches_only {}) (Tasks_list lid)"
  "steps (touches_only {lid}) (Tasks_insert r lid)"
  "steps (touches_only {lid}) (Tasks_patch n lid tid)"
  "steps (touches_only {lid}) (Tasks_remove lid tid)"
  unfolding steps_def Tasklists_list_def Tasks_list_def Tasks_insert_def Tasks_patch_def Tasks_remove_def
  by (auto simp: Let_def touches_only_def dest!: remote_world elim!: bind_cases split: option.splits)

lemma steps_mono_touches: "steps (touches_only A) m \<Longrightarrow> A \<subseteq> B \<Longrightarrow> steps (touches_only B) m"
  by (erule steps_weaken) (rule touches_only_mono)

lemma touches_move: "steps (touches_only {src, dst}) (move t src dst)"
  unfolding move_def
  by (intro steps_bind transp_touches_only steps_mono_touches[OF touches_task_ops(3)]
        steps_mono_touches[OF touches_task_ops(5)]) auto

lemma touches_migrate_task: "steps (touches_only {src, dst}) (migrate_task b src dst t)"
  unfolding migrate_task_def updateNotes_def
  by (auto intro!: steps_bind transp_touches_only touches_move
        steps_mono_touches[OF touches_task_ops(4)])

lemma touches_migrateIncompleteTasks:
  "steps (touches_only {src, dst}) (migrateIncompleteTasks cfg src dst)"
  unfolding migrateIncompleteTasks_def listIncompleteTasks_def
  by (intro steps_bind steps_for_each steps_ret transp_touches_only reflp_touches_only
        touches_migrate_task steps_mono_touches[OF touches_task_ops(2)]) auto

lemma touches_getCompleted: "steps (touches_only {}) (getCompletedTasksFromList lid)"
  unfolding getCompletedTasksFromList_def listCompletedTasks_def
  by (intro steps_bind steps_ret transp_touches_only reflp_touches_only touches_task_ops)

lemma deleteList_world:
  assumes "deleteList lid w = (Inr u, w')"
  shows "tasklists w' = filter (\<lambda>l. list_id l \<noteq> lid) (tasklists w)"
    "\<And>x. x \<noteq> lid \<Longrightarrow> tasks w' x = tasks w x"
    "clock w' = clock w" "reads w' = reads w"
  using assms unfolding deleteList_def Tasklists_remove_def
  by (auto dest!: remote_world elim!: bind_cases)

lemma in_world_eq:
  "in_world m (st, w) = (r, s') \<longleftrightarrow> (\<exists>w'. m w = (r, w') \<and> s' = (st, w'))"
  by (auto simp: in_world_def split: prod.splits)

lemma update_stats_eq: "update_stats g (st, w) = (Inr (), (g st, w))"
  by (simp add: update_stats_def)

lemma process_stale_ok:
  assumes "process_stale cfg inboxId l (st, w) = (Inr u, (st', w'))"
  shows "listDeleted st' = listDeleted st + 1"
    and "tasklists w' = filter (\<lambda>x. list_id x \<noteq> list_id l) (tasklists w)"
    and "\<And>x. x \<noteq> list_id l \<Longrightarrow> x \<noteq> inboxId \<Longrightarrow> tasks w' x = tasks w x"
    and "clock w' = clock w" and "reads w' = reads w"
proof -
  from assms obtain n w1 cs w2 where
    m: "migrateIncompleteTasks cfg (list_id l) inboxId w = (Inr n, w1)" and
    c: "getCompletedTasksFromList (list_id l) w1 = (Inr cs, w2)" and
    d: "deleteList (list_id l) w2 = (Inr (), w')" and
    st: "st' = st\<lparr>inboxAdds := inboxAdds st + n, completedTasks := completedTasks st @ cs,
                   listDeleted := listDeleted st + 1\<rparr>"
    unfolding process_stale_def
    by (auto simp: bind_Inr_iff in_world_eq update_stats_eq)
  from m have t1: "touches_only {list_id l, inboxId} w w1"
    by (rule stepsD[OF touches_migrateIncompleteTasks])
  from c have t2: "touches_only {} w1 w2"
    by (rule stepsD[OF touches_getCompleted])
  from st show "listDeleted st' = listDeleted st + 1" by simp
  from t1 t2 deleteList_world[OF d] show "tasklists w' = filter (\<lambda>x. list_id x \<noteq> list_id l) (tasklists w)"
    by (simp add: touches_only_def)
  from t1 t2 deleteList_world[OF d] show "clock w' = clock w" "reads w' = reads w"
    by (simp_all add: touches_only_def)
  fix x assume "x \<noteq> list_id l" "x \<noteq> inboxId"
  with t1 t2 deleteList_world(2)[OF d, of x] show "tasks w' x = tasks w x"
    by (simp add: touches_only_def)
qed

section \<open>The sweep over the stale lists\<close>

lemma reflp_sweep_frame: "reflp sweep_frame"
  by (simp add: reflp_def sweep_frame_def)

lemma transp_sweep_frame: "transp sweep_frame"
  by (auto simp: transp_def sweep_frame_def)

lemma sweep_frame_touches: "steps (touches_only A) m \<Longrightarrow> steps sweep_frame (in_world m)"
  by (auto simp: steps_def in_world_eq sweep_frame_def touches_only_def)

lemma sweep_frame_deleteList: "steps sweep_frame (in_world (deleteList lid))"
  unfolding steps_def deleteList_def Tasklists_remove_def
  by (auto simp: in_world_eq sweep_frame_def dest!: remote_world elim!: bind_cases)

lemma sweep_frame_update: "(\<And>st. listCreated (g st) = listCreated st) \<Longrightarrow> steps sweep_frame (update_stats g)"
  by (auto simp: steps_def update_stats_def sweep_frame_def)

lemma sweep_frame_process_stale: "steps sweep_frame (process_stale cfg inboxId l)"
  unfolding process_stale_def
  by (intro steps_bind transp_sweep_frame sweep_frame_touches[OF touches_migrateIncompleteTasks]
        sweep_frame_touches[OF touches_getCompleted] sweep_frame_deleteList sweep_frame_update) simp_all

lemma new_Date_eq: "new_Date w = (clock w (reads w), w\<lparr>reads := reads w + 1\<rparr>)"
  by (simp add: new_Date_def)

lemma sweep_frame_sweep: "steps sweep_frame (sweep cfg startTime inboxId stale)"
proof (induction stale)
  case Nil
  show ?case by (simp add: steps_def sweep_frame_def)
next
  case (Cons l ls)
  show ?case
    unfolding steps_def
  proof (intro allI impI)
    fix s r s' assume a: "sweep cfg startTime inboxId (l # ls) s = (r, s')"
    obtain st w where s: "s = (st, w)" by (cases s)
    let ?s1 = "(st, w\<lparr>reads := reads w + 1\<rparr>)"
    have r1: "sweep_frame s ?s1" by (simp add: s sweep_frame_def)
    show "sweep_frame s s'"
    proof (cases "over_budget cfg startTime (clock w (reads w))")
      case True
      with a s show ?thesis by (auto simp: new_Date_eq sweep_frame_def)
    next
      case False
      obtain r2 s2 where p: "process_stale cfg inboxId l ?s1 = (r2, s2)"
        by (cases "process_stale cfg inboxId l ?s1")
      then have r2: "sweep_frame ?s1 s2" by (rule stepsD[OF sweep_frame_process_stale])
      show ?thesis
      proof (cases r2)
        case (Inl e)
        with a s False p have "s' = s2" by (simp add: new_Date_eq)
        with r1 r2 show ?thesis by (auto dest: transpD[OF transp_sweep_frame])
      next
        case (Inr v)
        with a s False p have "sweep cfg startTime inboxId ls s2 = (r, s')"
          by (simp add: new_Date_eq)
        then have "sweep_frame s2 s'" by (rule stepsD[OF Cons])
        with r1 r2 show ?thesis by (blast dest: transpD[OF transp_sweep_frame])
      qed
    qed
  qed
qed

text \<open>
  C3. The loop of \<open>rolloverProcess\<close> over the stale lists reads the clock once before
  each list. When the first \<open>k\<close> readings are within the budget and the next one is
  over it, with more than \<open>k\<close> stale lists at hand, a loop that returns has deleted
  \<open>k\<close> lists and counted them in \<open>listDeleted\<close>, has set the note of a pause due to
  the timeout, and has left every remaining stale list in the store with its tasks
  unchanged; the first \<open>k\<close> lists are gone. The stale lists are lists of the store with
  distinct identifiers, and the inbox is not one of them.
\<close>

theorem sweep_pauses_at_deadline:
  assumes "sweep cfg startTime inboxId stale (st, w) = (Inr u, (st', w'))"
    and "k < length stale"
    and "\<forall>i<k. \<not> over_budget cfg startTime (clock w (reads w + i))"
    and "over_budget cfg startTime (clock w (reads w + k))"
    and "distinct (map list_id stale)"
    and "inboxId \<notin> list_id ` set stale"
    and "set stale \<subseteq> set (tasklists w)"
  shows "listDeleted st' = listDeleted st + k
       \<and> run_notes st' = pause_note
       \<and> (\<forall>l \<in> set (drop k stale). l \<in> set (tasklists w') \<and> tasks w' (list_id l) = tasks w (list_id l))
       \<and> (\<forall>l \<in> set (take k stale). l \<notin> set (tasklists w'))"
  using assms
proof (induction stale arbitrary: k st w)
  case Nil
  then show ?case by simp
next
  case (Cons l ls)
  show ?case
  proof (cases k)
    case 0
    with Cons.prems(1,4) have "st' = st\<lparr>run_notes := pause_note\<rparr>" "w' = w\<lparr>reads := reads w + 1\<rparr>"
      by (simp_all add: new_Date_eq)
    with 0 Cons.prems(7) show ?thesis by auto
  next
    case (Suc k')
    with Cons.prems(3) have nb: "\<not> over_budget cfg startTime (clock w (reads w))"
      by (metis add.right_neutral zero_less_Suc)
    let ?w1 = "w\<lparr>reads := reads w + 1\<rparr>"
    from Cons.prems(1) nb obtain st2 w2 where
      p: "process_stale cfg inboxId l (st, ?w1) = (Inr (), (st2, w2))" and
      s: "sweep cfg startTime inboxId ls (st2, w2) = (Inr u, (st', w'))"
      by (auto simp: new_Date_eq split: prod.splits sum.splits)
    note ps = process_stale_ok[OF p]
    from ps(4,5) have cr: "clock w2 = clock w" "reads w2 = reads w + 1" by simp_all
    have h2: "k' < length ls" using Cons.prems(2) Suc by simp
    have h3: "\<forall>i<k'. \<not> over_budget cfg startTime (clock w2 (reads w2 + i))"
    proof (intro allI impI)
      fix i assume "i < k'"
      then have "Suc i < k" using Suc by simp
      with Cons.prems(3) have "\<not> over_budget cfg startTime (clock w (reads w + Suc i))" by blast
      then show "\<not> over_budget cfg startTime (clock w2 (reads w2 + i))" by (simp add: cr)
    qed
    have h4: "over_budget cfg startTime (clock w2 (reads w2 + k'))"
      using Cons.prems(4) Suc by (simp add: cr)
    have h5: "distinct (map list_id ls)" using Cons.prems(5) by simp
    have h6: "inboxId \<notin> list_id ` set ls" using Cons.prems(6) by auto
    have nl: "\<And>x. x \<in> set ls \<Longrightarrow> list_id x \<noteq> list_id l"
    proof
      fix x assume "x \<in> set ls" "list_id x = list_id l"
      then have "list_id l \<in> list_id ` set ls" by (metis imageI)
      with Cons.prems(5) show False by simp
    qed
    have h7: "set ls \<subseteq> set (tasklists w2)"
      using Cons.prems(7) nl by (auto simp: ps(2))
    from Cons.IH[OF s h2 h3 h4 h5 h6 h7] have
      ih1: "listDeleted st' = listDeleted st2 + k'" and ih2: "run_notes st' = pause_note" and
      ih3: "\<forall>x \<in> set (drop k' ls). x \<in> set (tasklists w') \<and> tasks w' (list_id x) = tasks w2 (list_id x)" and
      ih4: "\<forall>x \<in> set (take k' ls). x \<notin> set (tasklists w')" by auto
    have keep: "\<And>x. x \<in> set ls \<Longrightarrow> tasks w2 (list_id x) = tasks w (list_id x)"
    proof -
      fix x assume x: "x \<in> set ls"
      with Cons.prems(6) have "list_id x \<noteq> inboxId" by auto
      with nl[OF x] ps(3)[of "list_id x"] show "tasks w2 (list_id x) = tasks w (list_id x)" by simp
    qed
    have gone: "l \<notin> set (tasklists w')"
    proof -
      have "l \<notin> set (tasklists w2)" by (simp add: ps(2))
      moreover have "set (tasklists w') \<subseteq> set (tasklists w2)"
        using stepsD[OF sweep_frame_sweep s] by (simp add: sweep_frame_def)
      ultimately show ?thesis by auto
    qed
    from ih1 ih2 ih3 ih4 keep gone ps(1) Suc show ?thesis
      by (auto dest: in_set_dropD)
  qed
qed

section \<open>The lock and the failure handler\<close>

lemma keeps_lock_store:
  "keeps lock Tasklists_list" "keeps lock (Tasklists_insert ttl)"
  "keeps lock (Tasklists_remove lid)" "keeps lock (Tasks_list lid)" "keeps lock (Tasks_insert r lid)"
  "keeps lock (Tasks_patch n lid tid)" "keeps lock (Tasks_remove lid tid)"
  by (rule keeps_store_ops; simp)+

lemma keeps_lock_sheet: "keeps lock (sendEmail a b c)" "keeps lock (appendRow row)" "keeps lock remote"
  by (rule keeps_sheet_ops keeps_remote; simp)+

lemma keeps_fun: "(\<And>s. keeps f (\<lambda>s'. m s s')) \<Longrightarrow> keeps f (\<lambda>s. m s s)"
  by (auto simp: keeps_def steps_def)

lemma keeps_lock_logRun: "keeps lock (logRun cfg st)"
  unfolding logRun_def
  apply (intro keeps_try_catch keeps_lock_sheet keeps_bind)
  apply (auto simp: keeps_ret intro!: keeps_bind keeps_lock_sheet)
  apply (auto simp: keeps_def steps_def appendRow_def dest!: remote_world elim!: bind_cases split: option.splits)
  done

lemma keeps_lock_setup: "keeps lock (LoggingSheetUtil_setup cfg)"
  unfolding LoggingSheetUtil_setup_def
  apply (intro keeps_try_catch keeps_lock_sheet keeps_bind)
  apply (auto simp: keeps_ret intro!: keeps_bind keeps_lock_sheet)
  apply (auto simp: keeps_def steps_def dest!: remote_world elim!: bind_cases split: option.splits)
  done

lemma keeps_lock_digest: "keeps lock (sendWeeklyDigest cfg)"
  unfolding sendWeeklyDigest_def
  apply (auto simp: keeps_ret intro!: keeps_try_catch keeps_bind keeps_lock_sheet)
  apply (auto simp: keeps_def steps_def sendEmail_def dest!: remote_world elim!: bind_cases split: option.splits)
  done

lemma keeps_case_option:
  "keeps f m \<Longrightarrow> (\<And>x. keeps f (g x)) \<Longrightarrow> keeps f (case v of None \<Rightarrow> m | Some x \<Rightarrow> g x)"
  by (cases v) simp_all

lemma keeps_lock_sweep: "keeps lock_of (sweep cfg startTime inboxId stale)"
  unfolding keeps_def by (rule steps_weaken[OF sweep_frame_sweep]) (simp add: sweep_frame_def)

lemma keeps_lock_rolloverProcess: "keeps lock_of (rolloverProcess cfg todayTitle startTime)"
  unfolding rolloverProcess_def getListByTitle_def listAll_def createList_def
  by (intro keeps_bind keeps_case_option keeps_in_world keeps_update_stats keeps_ret keeps_throw
        keeps_lock_setup keeps_lock_store keeps_lock_sweep)

lemma keeps_lock_move: "keeps lock (move t src dst)"
  unfolding move_def by (intro keeps_bind keeps_lock_store)

lemma keeps_lock_inbox_step: "keeps lock_of (inbox_step d todayListId inboxId t)"
  unfolding inbox_step_def
  by (auto intro!: keeps_bind keeps_in_world keeps_update_stats keeps_ret keeps_lock_move)

lemma keeps_lock_processInboxTasks: "keeps lock_of (processInboxTasks cfg todayListId inboxId)"
proof -
  have "keeps lock_of (\<lambda>(st, w). case new_Date w of
         (today, w1) \<Rightarrow> for_each (inbox_step (formatDate cfg today ''yyyy-MM-dd'') todayListId inboxId) ts (st, w1))"
    for ts
    unfolding keeps_def steps_def
  proof (intro allI impI)
    fix s r s'
    assume a: "(case s of (st, w) \<Rightarrow> case new_Date w of
         (today, w1) \<Rightarrow> for_each (inbox_step (formatDate cfg today ''yyyy-MM-dd'') todayListId inboxId) ts (st, w1)) = (r, s')"
    obtain st w where s: "s = (st, w)" by (cases s)
    from a s have "for_each (inbox_step (formatDate cfg (clock w (reads w)) ''yyyy-MM-dd'') todayListId inboxId) ts
        (st, w\<lparr>reads := reads w + 1\<rparr>) = (r, s')"
      by (simp add: new_Date_eq)
    from keepsD[OF keeps_for_each[OF keeps_lock_inbox_step] this] s show "lock_of s' = lock_of s" by simp
  qed
  then show ?thesis
    unfolding processInboxTasks_def listAllTasks_def
    by (intro keeps_bind keeps_in_world keeps_lock_store)
qed

lemma keeps_lock_log_stats: "keeps lock_of (\<lambda>(st, w). in_world (logRun cfg st) (st, w))"
  using keeps_lock_logRun
  by (auto simp: keeps_def steps_def in_world_eq)

lemma keeps_lock_run_body: "keeps lock_of (run_body cfg startTime)"
  unfolding run_body_def
  by (auto intro!: keeps_bind keeps_in_world keeps_ret keeps_lock_rolloverProcess
        keeps_lock_processInboxTasks keeps_lock_log_stats keeps_lock_digest)

lemma keeps_lock_on_error: "keeps lock_of (on_error cfg e)"
  unfolding on_error_def
  by (intro keeps_bind keeps_in_world keeps_update_stats keeps_lock_log_stats keeps_lock_sheet)

lemma remote_quiet:
  assumes "quiet w"
  shows "remote w = (Inr (), w\<lparr>faults := tl (faults w)\<rparr>)" "quiet (w\<lparr>faults := tl (faults w)\<rparr>)"
  using assms by (cases w; cases "faults w"; auto simp: remote_def quiet_def)+

lemma sendEmail_quiet:
  assumes "quiet w"
  shows "\<exists>w'. sendEmail a b c w = (Inr (), w') \<and> quiet w'
           \<and> outbox w' = outbox w @ [\<lparr>mail_to = a, mail_subject = b, mail_body = c\<rparr>]
           \<and> runs_tab w' = runs_tab w \<and> lock w' = lock w
           \<and> tasklists w' = tasklists w \<and> tasks w' = tasks w"
  using remote_quiet[OF assms] by (simp add: sendEmail_def bind_def quiet_def)

lemma logRun_quiet:
  assumes "quiet w"
  shows "\<exists>w'. logRun cfg st w = (Inr (), w') \<and> quiet w'
           \<and> runs_tab w' = (if truthy (logSheetId cfg)
                             then map_option (\<lambda>rs. rs @ [row_of st]) (runs_tab w) else runs_tab w)
           \<and> outbox w' = outbox w \<and> lock w' = lock w
           \<and> tasklists w' = tasklists w \<and> tasks w' = tasks w"
proof (cases "truthy (logSheetId cfg)")
  case False
  with assms show ?thesis by (simp add: logRun_def try_catch_def ret_def)
next
  case True
  let ?w1 = "w\<lparr>faults := tl (faults w)\<rparr>"
  note r1 = remote_quiet[OF assms]
  note r2 = remote_quiet[OF r1(2)]
  show ?thesis
  proof (cases "runs_tab w")
    case None
    with True r1 show ?thesis by (simp add: logRun_def try_catch_def bind_def)
  next
    case (Some rs)
    with True r1 r2 show ?thesis
      by (simp add: logRun_def try_catch_def bind_def appendRow_def quiet_def)
  qed
qed

text \<open>
  C9. When the lock cannot be acquired, \<open>dailyRunner\<close> returns normally and leaves the
  world as it found it: no list or task is read or written, no row is appended to the log,
  no mail is sent.
\<close>

theorem deferral_is_silent:
  "lock w \<noteq> Free \<Longrightarrow> dailyRunner cfg w = (Inr (), w)"
  by (simp add: dailyRunner_def tryLock_def)

lemma dailyRunner_locked:
  assumes "lock w = Free"
  shows "dailyRunner cfg w =
     (case try_catch (run_body cfg (clock w (reads w))) (on_error cfg)
             (initial_stats (clock w (reads w)), w\<lparr>lock := HeldByRun, reads := reads w + 1\<rparr>) of
        (r, (st, w3)) \<Rightarrow> (r, releaseLock w3))"
  using assms by (simp add: dailyRunner_def tryLock_def new_Date_def)

lemma keeps_lock_try: "keeps lock_of (try_catch (run_body cfg startTime) (on_error cfg))"
  by (intro keeps_try_catch keeps_lock_run_body keeps_lock_on_error)

text \<open>
  C2. Once the lock is acquired it is released on every path out of \<open>dailyRunner\<close>.
  When the \<open>try\<close> block throws \<open>e\<close> at any point, leaving the statistics \<open>st\<close> it
  had reached, and the services answer the handler's own calls, \<open>dailyRunner\<close> returns
  normally: the row of \<open>st\<close> with the note \<open>FATAL: e\<close> is appended to the log (when a
  log sheet is configured and its tab exists), the failure mail is sent, the lock is free,
  and the store is as the failure left it.
\<close>

theorem fatal_error_is_logged_and_notified:
  assumes "lock w = Free"
  shows "lock (snd (dailyRunner cfg w)) = Free
     \<and> (\<forall>e st w1.
          run_body cfg (clock w (reads w))
            (initial_stats (clock w (reads w)), w\<lparr>lock := HeldByRun, reads := reads w + 1\<rparr>)
              = (Inl e, (st, w1))
          \<and> quiet w1
          \<longrightarrow> (\<exists>w2. dailyRunner cfg w = (Inr (), w2)
                 \<and> lock w2 = Free
                 \<and> runs_tab w2 = (if truthy (logSheetId cfg)
                                   then map_option (\<lambda>rs. rs @ [row_of (st\<lparr>run_notes := fatal_note e\<rparr>)]) (runs_tab w1)
                                   else runs_tab w1)
                 \<and> outbox w2 = outbox w1 @ [failure_mail cfg e]
                 \<and> tasklists w2 = tasklists w1 \<and> tasks w2 = tasks w1))"
proof (intro conjI allI impI)
  let ?start = "clock w (reads w)"
  let ?w0 = "w\<lparr>lock := HeldByRun, reads := reads w + 1\<rparr>"
  let ?run = "try_catch (run_body cfg ?start) (on_error cfg) (initial_stats ?start, ?w0)"
  obtain r st3 w3 where t: "?run = (r, (st3, w3))" by (cases ?run) auto
  from keepsD[OF keeps_lock_try t] have "lock w3 = HeldByRun" by simp
  with t assms show "lock (snd (dailyRunner cfg w)) = Free"
    by (simp add: dailyRunner_locked releaseLock_def)
next
  fix e st w1
  let ?start = "clock w (reads w)"
  let ?w0 = "w\<lparr>lock := HeldByRun, reads := reads w + 1\<rparr>"
  assume a: "run_body cfg ?start (initial_stats ?start, ?w0) = (Inl e, (st, w1)) \<and> quiet w1"
  then have body: "run_body cfg ?start (initial_stats ?start, ?w0) = (Inl e, (st, w1))"
    and q: "quiet w1" by simp_all
  from keepsD[OF keeps_lock_run_body body] have l1: "lock w1 = HeldByRun" by simp
  let ?st = "st\<lparr>run_notes := fatal_note e\<rparr>"
  from logRun_quiet[OF q, of cfg ?st] obtain wa where
    la: "logRun cfg ?st w1 = (Inr (), wa)" and qa: "quiet wa" and
    ra: "runs_tab wa = (if truthy (logSheetId cfg)
                        then map_option (\<lambda>rs. rs @ [row_of ?st]) (runs_tab w1) else runs_tab w1)" and
    oa: "outbox wa = outbox w1" "lock wa = lock w1" "tasklists wa = tasklists w1" "tasks wa = tasks w1"
    by blast
  from sendEmail_quiet[OF qa, of "userEmail cfg" "''Google Tasks Script has failed!''"
      "''The daily task rollover script encountered a fatal error and could not complete.'' @ newline2 @ ''Error: '' @ e"]
  obtain wb where
    sb: "sendEmail (userEmail cfg) ''Google Tasks Script has failed!''
          (''The daily task rollover script encountered a fatal error and could not complete.'' @ newline2 @ ''Error: '' @ e) wa
          = (Inr (), wb)" and
    ob: "outbox wb = outbox wa @ [failure_mail cfg e]" "runs_tab wb = runs_tab wa" "lock wb = lock wa"
        "tasklists wb = tasklists wa" "tasks wb = tasks wa"
    by (auto simp: failure_mail_def)
  have h: "on_error cfg e (st, w1) = (Inr (), (?st, wb))"
    using la sb by (simp add: on_error_def bind_def update_stats_def in_world_def)
  have "dailyRunner cfg w = (Inr (), releaseLock wb)"
    using assms body h by (simp add: dailyRunner_locked try_catch_def)
  moreover have "lock (releaseLock wb) = Free" "runs_tab (releaseLock wb) = runs_tab wb"
    "outbox (releaseLock wb) = outbox wb" "tasklists (releaseLock wb) = tasklists wb"
    "tasks (releaseLock wb) = tasks wb"
    using l1 oa ob by (simp_all add: releaseLock_def)
  ultimately show "\<exists>w2. dailyRunner cfg w = (Inr (), w2)
                 \<and> lock w2 = Free
                 \<and> runs_tab w2 = (if truthy (logSheetId cfg)
                                   then map_option (\<lambda>rs. rs @ [row_of (st\<lparr>run_notes := fatal_note e\<rparr>)]) (runs_tab w1)
                                   else runs_tab w1)
                 \<and> outbox w2 = outbox w1 @ [failure_mail cfg e]
                 \<and> tasklists w2 = tasklists w1 \<and> tasks w2 = tasks w1"
    using ra oa ob by (intro exI[of _ "releaseLock wb"]) simp
qed

section \<open>Today's list\<close>

lemma keeps_store_setup: "keeps store_of (LoggingSheetUtil_setup cfg)"
  unfolding LoggingSheetUtil_setup_def
  apply (auto simp: keeps_ret intro!: keeps_try_catch keeps_bind keeps_sheet_ops keeps_remote)
  apply (auto simp: keeps_def steps_def store_of_def dest!: remote_world elim!: bind_cases split: option.splits)
  done

lemma listAll_world:
  assumes "listAll w = (r, w')"
  shows "store_of w' = store_of w" "\<And>ls. r = Inr ls \<Longrightarrow> ls = tasklists w"
  using assms unfolding listAll_def Tasklists_list_def
  by (auto simp: store_of_def dest!: remote_world elim!: bind_cases)

lemma getListByTitle_world:
  assumes "getListByTitle ttl w = (r, w')"
  shows "store_of w' = store_of w"
  using assms unfolding getListByTitle_def
  by (auto simp: ret_def dest!: listAll_world(1) elim!: bind_cases)

lemma createList_world:
  assumes "createList ttl w = (r, w')"
  shows "(\<exists>e. r = Inl e \<and> tasklists w' = tasklists w)
       \<or> (\<exists>l. r = Inr l \<and> list_title l = ttl \<and> tasklists w' = tasklists w @ [l])"
  using assms unfolding createList_def Tasklists_insert_def
  by (auto simp: Let_def dest!: remote_world elim!: bind_cases)

text \<open>
  C4. \<open>rolloverProcess\<close>, started with \<open>listCreated = 0\<close> as \<open>dailyRunner\<close> does, ends
  with \<open>listCreated\<close> 0 or 1, whatever the outcome. When a list with today's full title
  exists, no list is created and the counter stays 0. When none exists and the function
  returns, the counter is 1 and the store holds exactly one list with that title.
\<close>

theorem today_list_created_at_most_once:
  assumes "rolloverProcess cfg todayTitle startTime (st, w) = (r, (st', w'))"
    and "listCreated st = 0"
  shows "(listCreated st' = 0 \<or> listCreated st' = 1)
     \<and> ((\<exists>l \<in> set (tasklists w). list_title l = todayListFullName cfg todayTitle)
          \<longrightarrow> listCreated st' = 0 \<and> set (tasklists w') \<subseteq> set (tasklists w))
     \<and> ((\<forall>l \<in> set (tasklists w). list_title l \<noteq> todayListFullName cfg todayTitle) \<and> (\<exists>ids. r = Inr ids)
          \<longrightarrow> listCreated st' = 1
              \<and> length (filter (\<lambda>l. list_title l = todayListFullName cfg todayTitle) (tasklists w')) = 1)"
proof -
  let ?full = "todayListFullName cfg todayTitle"
  let ?goal = "(listCreated st' = 0 \<or> listCreated st' = 1)
     \<and> ((\<exists>l \<in> set (tasklists w). list_title l = ?full)
          \<longrightarrow> listCreated st' = 0 \<and> set (tasklists w') \<subseteq> set (tasklists w))
     \<and> ((\<forall>l \<in> set (tasklists w). list_title l \<noteq> ?full) \<and> (\<exists>ids. r = Inr ids)
          \<longrightarrow> listCreated st' = 1 \<and> length (filter (\<lambda>l. list_title l = ?full) (tasklists w')) = 1)"
  have early: "?goal" if "r = Inl e" "listCreated st' = 0" "set (tasklists w') \<subseteq> set (tasklists w)" for e
    using that by simp
  from assms(1) show ?thesis
    unfolding rolloverProcess_def
  proof (cases rule: bind_cases)
    case (fail e)
    then have "st' = st" "store_of w' = store_of w"
      by (auto simp: in_world_eq dest: keepsD[OF keeps_store_setup])
    with fail assms(2) show ?thesis by (intro early[of e]) (simp_all add: store_of_def)
  next
    case (ok u1 s1)
    then obtain w1 where s1: "s1 = (st, w1)" and k1: "store_of w1 = store_of w"
      by (auto simp: in_world_eq dest: keepsD[OF keeps_store_setup])
    from ok(2) show ?thesis
    proof (cases rule: bind_cases)
      case (fail e)
      with s1 k1 have "st' = st" "store_of w' = store_of w"
        by (auto simp: in_world_eq dest: getListByTitle_world)
      with fail assms(2) show ?thesis by (intro early[of e]) (simp_all add: store_of_def)
    next
      case (ok inboxList s2)
      with s1 k1 obtain w2 where s2: "s2 = (st, w2)" and k2: "store_of w2 = store_of w"
        by (auto simp: in_world_eq dest: getListByTitle_world)
      show ?thesis
      proof (cases inboxList)
        case None
        with ok(2) s2 have "r = Inl (''Inbox list '' @ [CHR 34] @ inboxListName cfg @ [CHR 34] @ '' not found.'')"
          "st' = st" "w' = w2" by (simp_all add: throw_def)
        with k2 assms(2) show ?thesis by (intro early) (simp_all add: store_of_def)
      next
        case (Some inbox)
        with ok(2) have b3: "bind (in_world listAll) (\<lambda>allLists.
           bind (sweep cfg startTime (list_id inbox) (staleLists cfg todayTitle allLists)) (\<lambda>u.
             case find (\<lambda>l. list_title l = ?full) allLists of
               None \<Rightarrow>
                 bind (in_world (createList ?full)) (\<lambda>todayList.
                 bind (update_stats (\<lambda>st. st\<lparr>listCreated := listCreated st + 1\<rparr>)) (\<lambda>u.
                   ret (list_id todayList, list_id inbox)))
             | Some todayList \<Rightarrow> ret (list_id todayList, list_id inbox))) s2 = (r, (st', w'))"
          by simp
        from b3 show ?thesis
        proof (cases rule: bind_cases)
          case (fail e)
          with s2 k2 have "st' = st" "store_of w' = store_of w"
            by (auto simp: in_world_eq dest: listAll_world(1))
          with fail assms(2) show ?thesis by (intro early[of e]) (simp_all add: store_of_def)
        next
          case (ok allLists s3)
          with s2 obtain w3 where la: "listAll w2 = (Inr allLists, w3)" and s3: "s3 = (st, w3)"
            by (auto simp: in_world_eq)
          from listAll_world[OF la] k2 have k3: "store_of w3 = store_of w"
            and all: "allLists = tasklists w"
            by (simp_all add: store_of_def)
          from ok(2) show ?thesis
          proof (cases rule: bind_cases)
            case (fail e)
            from stepsD[OF sweep_frame_sweep fail(1)] s3 k3
            have "listCreated st' = listCreated st" "set (tasklists w') \<subseteq> set (tasklists w)"
              by (simp_all add: sweep_frame_def store_of_def)
            with fail assms(2) show ?thesis by (intro early[of e]) simp_all
          next
            case (ok u4 s4)
            obtain st4 w4 where s4: "s4 = (st4, w4)" by (cases s4)
            from stepsD[OF sweep_frame_sweep ok(1)] s3 k3 s4
            have c4: "listCreated st4 = listCreated st" and sub4: "set (tasklists w4) \<subseteq> set (tasklists w)"
              by (simp_all add: sweep_frame_def store_of_def)
            show ?thesis
            proof (cases "find (\<lambda>l. list_title l = ?full) allLists")
              case (Some todayList)
              with ok(2) s4 have "st' = st4" "w' = w4" by (simp_all add: ret_def)
              moreover from Some all have "\<exists>l \<in> set (tasklists w). list_title l = ?full"
                by (auto simp: find_Some_iff)
              ultimately show ?thesis using c4 sub4 assms(2) by auto
            next
              case None
              with all have none: "\<forall>l \<in> set (tasklists w). list_title l \<noteq> ?full"
                by (auto simp: find_None_iff)
              from None ok(2) s4 have b5: "bind (in_world (createList ?full)) (\<lambda>todayList.
                 bind (update_stats (\<lambda>st. st\<lparr>listCreated := listCreated st + 1\<rparr>)) (\<lambda>u.
                   ret (list_id todayList, list_id inbox))) (st4, w4) = (r, (st', w'))" by simp
              from b5 show ?thesis
              proof (cases rule: bind_cases)
                case (fail e)
                then have "st' = st4" and "createList ?full w4 = (Inl e, w')"
                  by (auto simp: in_world_eq)
                with createList_world[of ?full w4 "Inl e" w'] have "tasklists w' = tasklists w4" by auto
                with \<open>st' = st4\<close> c4 sub4 fail assms(2) none show ?thesis by auto
              next
                case (ok l s5)
                then obtain w5 where s5: "s5 = (st4, w5)" and cr: "createList ?full w4 = (Inr l, w5)"
                  by (auto simp: in_world_eq)
                from createList_world[OF cr] have lt: "list_title l = ?full"
                  and tl: "tasklists w5 = tasklists w4 @ [l]" by auto
                from ok(2) s5 have fin: "st' = st4\<lparr>listCreated := listCreated st4 + 1\<rparr>" "w' = w5"
                  by (simp_all add: bind_def update_stats_def ret_def)
                from sub4 none have "filter (\<lambda>l. list_title l = ?full) (tasklists w4) = []"
                  by (auto simp: filter_empty_conv)
                with fin tl lt c4 assms(2) none show ?thesis by auto
              qed
            qed
          qed
        qed
      qed
    qed
  qed
qed

lemma demo_stale_eq: "demo_stale = [\<lparr>list_id = 2, list_title = ''[Daily] July 8, 2025''\<rparr>,
      \<lparr>list_id = 3, list_title = ''[Daily] July 9, 2025''\<rparr>]"
  by code_simp

lemma result_cases:
  obtains r st w where "(x :: (string + 'a) \<times> stats \<times> world) = (r, (st, w))"
  by (cases x) auto

theorem sweep_pauses_at_deadline_witness:
  "listDeleted (fst (snd (sweep demo_config 0 1 demo_stale (initial_stats 0, demo_world\<lparr>clock := (\<lambda>k. if k < 2 then 1000 else 300000), reads := 1\<rparr>)))) = 1
   \<and> run_notes (fst (snd (sweep demo_config 0 1 demo_stale (initial_stats 0, demo_world\<lparr>clock := (\<lambda>k. if k < 2 then 1000 else 300000), reads := 1\<rparr>)))) = pause_note
   \<and> tasks (snd (snd (sweep demo_config 0 1 demo_stale (initial_stats 0, demo_world\<lparr>clock := (\<lambda>k. if k < 2 then 1000 else 300000), reads := 1\<rparr>)))) 3
       = demo_tasks 3"
proof -
  let ?w = "demo_world\<lparr>clock := (\<lambda>k. if k < 2 then 1000 else 300000), reads := 1\<rparr>"
  obtain r st' w' where e: "sweep demo_config 0 1 demo_stale (initial_stats 0, ?w) = (r, (st', w'))"
    by (rule result_cases)
  have "fst (sweep demo_config 0 1 demo_stale (initial_stats 0, ?w)) = Inr ()" by code_simp
  with e have e': "sweep demo_config 0 1 demo_stale (initial_stats 0, ?w) = (Inr (), (st', w'))" by simp
  have h2: "1 < length demo_stale" by (simp add: demo_stale_eq)
  have h3: "\<forall>i<1. \<not> over_budget demo_config 0 (clock ?w (reads ?w + i))"
    by (simp add: over_budget_def demo_config_def demo_world_def)
  have h4: "over_budget demo_config 0 (clock ?w (reads ?w + 1))"
    by (simp add: over_budget_def demo_config_def demo_world_def)
  have h5: "distinct (map list_id demo_stale)" by (simp add: demo_stale_eq)
  have h6: "1 \<notin> list_id ` set demo_stale" by (simp add: demo_stale_eq)
  have h7: "set demo_stale \<subseteq> set (tasklists ?w)" by (simp add: demo_stale_eq demo_world_def demo_lists_def)
  from sweep_pauses_at_deadline[OF e' h2 h3 h4 h5 h6 h7]
  have "listDeleted st' = 1" "run_notes st' = pause_note" "tasks w' 3 = tasks ?w 3"
    by (simp_all add: initial_stats_def demo_stale_eq)
  with e show ?thesis by (simp add: demo_world_def)
qed

theorem deferral_is_silent_witness:
  "dailyRunner demo_config (demo_world\<lparr>lock := HeldByOther\<rparr>) = (Inr (), demo_world\<lparr>lock := HeldByOther\<rparr>)"
  using deferral_is_silent [of "demo_world\<lparr>lock := HeldByOther\<rparr>" demo_config] by simp

theorem fatal_error_is_logged_and_notified_witness:
  "lock (snd (dailyRunner demo_config quota_world)) = Free
   \<and> runs_tab (snd (dailyRunner demo_config quota_world))
       = Some [\<lparr>row_timestamp = 1000, row_inboxAdds = 1, row_listDeleted = 1, row_listCreated = 0,
                row_notes = ''FATAL: Quota exceeded''\<rparr>]
   \<and> outbox (snd (dailyRunner demo_config quota_world)) = [failure_mail demo_config ''Quota exceeded'']"
proof -
  let ?s0 = "(initial_stats (clock quota_world (reads quota_world)),
              quota_world\<lparr>lock := HeldByRun, reads := reads quota_world + 1\<rparr>)"
  let ?body = "run_body demo_config (clock quota_world (reads quota_world)) ?s0"
  have free: "lock quota_world = Free" by (simp add: quota_world_def demo_world_def)
  obtain r st w1 where b: "?body = (r, (st, w1))" by (rule result_cases)
  have "fst ?body = Inl ''Quota exceeded''" by code_simp
  with b have b': "?body = (Inl ''Quota exceeded'', (st, w1))" by simp
  have "quiet (snd (snd ?body))" by code_simp
  with b have q: "quiet w1" by simp
  have "runs_tab (snd (snd ?body)) = Some []" "outbox (snd (snd ?body)) = []" by code_simp+
  with b have w1: "runs_tab w1 = Some []" "outbox w1 = []" by simp_all
  have "row_of ((fst (snd ?body))\<lparr>run_notes := fatal_note ''Quota exceeded''\<rparr>)
        = \<lparr>row_timestamp = 1000, row_inboxAdds = 1, row_listDeleted = 1, row_listCreated = 0,
           row_notes = ''FATAL: Quota exceeded''\<rparr>" by code_simp
  with b have row: "row_of (st\<lparr>run_notes := fatal_note ''Quota exceeded''\<rparr>)
        = \<lparr>row_timestamp = 1000, row_inboxAdds = 1, row_listDeleted = 1, row_listCreated = 0,
           row_notes = ''FATAL: Quota exceeded''\<rparr>" by simp
  have cfg: "truthy (logSheetId demo_config)" by (simp add: truthy_def demo_config_def)
  from fatal_error_is_logged_and_notified [OF free, of demo_config] b' q
  obtain w2 where "dailyRunner demo_config quota_world = (Inr (), w2)" "lock w2 = Free"
    "runs_tab w2 = (if truthy (logSheetId demo_config)
       then map_option (\<lambda>rs. rs @ [row_of (st\<lparr>run_notes := fatal_note ''Quota exceeded''\<rparr>)]) (runs_tab w1)
       else runs_tab w1)"
    "outbox w2 = outbox w1 @ [failure_mail demo_config ''Quota exceeded'']"
    by blast
  with cfg row w1 show ?thesis by simp
qed

theorem today_list_created_at_most_once_witness:
  "listCreated (fst (snd (rolloverProcess demo_config ''July 10, 2025'' 1000 (initial_stats 1000, demo_world)))) = 1
   \<and> listCreated (fst (snd (rolloverProcess demo_config ''July 10, 2025'' 1000 (initial_stats 1000, today_world)))) = 0"
proof -
  let ?full = "todayListFullName demo_config ''July 10, 2025''"
  let ?a = "rolloverProcess demo_config ''July 10, 2025'' 1000 (initial_stats 1000, demo_world)"
  let ?b = "rolloverProcess demo_config ''July 10, 2025'' 1000 (initial_stats 1000, today_world)"
  have z: "listCreated (initial_stats 1000) = 0" by (simp add: initial_stats_def)
  obtain ra sta wa where a: "?a = (ra, (sta, wa))" by (rule result_cases)
  obtain rb stb wb where b: "?b = (rb, (stb, wb))" by (rule result_cases)
  have "fst ?a = Inr (102, 1)" by code_simp
  with a have ra: "\<exists>ids. ra = Inr ids" by simp
  have none: "\<forall>l \<in> set (tasklists demo_world). list_title l \<noteq> ?full" by code_simp
  have some: "\<exists>l \<in> set (tasklists today_world). list_title l = ?full" by code_simp
  from today_list_created_at_most_once [OF a z] none ra have "listCreated sta = 1" by blast
  moreover from today_list_created_at_most_once [OF b z] some have "listCreated stb = 0" by blast
  ultimately show ?thesis using a b by simp
qed

section \<open>The inbox sweep\<close>

lemma move_world:
  assumes "move t src dst w = (r, w')"
  shows "(\<exists>e. r = Inl e) \<and> tasks w' = tasks w
       \<or> (\<exists>e. r = Inl e) \<and> tasks w' = (tasks w)(dst := created_task (next_id w) (move_new_task t) # tasks w dst)
       \<or> r = Inr () \<and> tasks w' =
            ((tasks w)(dst := created_task (next_id w) (move_new_task t) # tasks w dst))
              (src := filter (\<lambda>y. task_id y \<noteq> task_id t)
                 (((tasks w)(dst := created_task (next_id w) (move_new_task t) # tasks w dst)) src))"
  using assms unfolding move_def Tasks_insert_def Tasks_remove_def
  by (auto simp: Let_def dest!: remote_world elim!: bind_cases)

lemma move_ok:
  assumes "move t src dst w = (Inr u, w')" "src \<noteq> dst"
  shows "tasks w' dst = created_task (next_id w) (move_new_task t) # tasks w dst"
    and "tasks w' src = filter (\<lambda>y. task_id y \<noteq> task_id t) (tasks w src)"
  using move_world[OF assms(1)] assms(2) by auto

lemma move_stays:
  assumes "move t src dst w = (r, w')" "y \<in> set (tasks w src)" "task_id y \<noteq> task_id t"
  shows "y \<in> set (tasks w' src)"
  using move_world[OF assms(1)] assms(2,3) by (auto split: if_splits)

lemma move_adds_copy_only:
  assumes "move t src dst w = (r, w')"
  shows "set (tasks w' dst) \<subseteq> insert (created_task (next_id w) (move_new_task t)) (set (tasks w dst))"
  using move_world[OF assms(1)] by (auto split: if_splits)

lemma move_one_way:
  assumes "move t src dst w = (r, w')" "src \<noteq> dst"
  shows "set (tasks w dst) \<subseteq> set (tasks w' dst)" "set (tasks w' src) \<subseteq> set (tasks w src)"
  using move_world[OF assms(1)] assms(2) by (auto split: if_splits)

lemma inbox_step_skip: "\<not> due_today d t \<Longrightarrow> inbox_step d todayListId inboxId t = ret ()"
  by (auto simp: inbox_step_def due_today_def)

lemma inbox_step_move:
  "due_today d t \<Longrightarrow> inbox_step d todayListId inboxId t =
     bind (in_world (move t inboxId todayListId))
       (\<lambda>u. update_stats (\<lambda>st. st\<lparr>inboxMoves := inboxMoves st + 1\<rparr>))"
  by (auto simp: inbox_step_def due_today_def)

lemma inbox_step_world:
  assumes "inbox_step d todayListId inboxId x (st, w) = (r, (st', w'))"
  shows "\<not> due_today d x \<and> r = Inr () \<and> st' = st \<and> w' = w
       \<or> due_today d x \<and> (\<exists>e. r = Inl e \<and> st' = st \<and> move x inboxId todayListId w = (Inl e, w'))
       \<or> due_today d x \<and> r = Inr () \<and> st' = st\<lparr>inboxMoves := inboxMoves st + 1\<rparr>
            \<and> move x inboxId todayListId w = (Inr (), w')"
proof (cases "due_today d x")
  case False
  with assms show ?thesis by (simp add: inbox_step_skip ret_def)
next
  case True
  with assms show ?thesis
    by (auto simp: inbox_step_move in_world_eq update_stats_eq elim!: bind_cases)
qed

lemma reflp_stays: "reflp (stays i t)" and transp_stays: "transp (stays i t)"
  by (auto simp: reflp_def transp_def stays_def)

lemma reflp_copies_only: "reflp (copies_only d l)" and transp_copies_only: "transp (copies_only d l)"
  by (auto simp: reflp_def transp_def copies_only_def)

lemma reflp_one_way: "reflp (one_way i l)" and transp_one_way: "transp (one_way i l)"
  by (auto simp: reflp_def transp_def one_way_def)

lemma stays_inbox_step:
  assumes "due_today d x \<longrightarrow> task_id x \<noteq> task_id t"
  shows "steps (stays inboxId t) (inbox_step d todayListId inboxId x)"
  unfolding steps_def
proof (intro allI impI)
  fix s r s' assume a: "inbox_step d todayListId inboxId x s = (r, s')"
  obtain st w st' w' where s: "s = (st, w)" "s' = (st', w')" by (cases s; cases s') auto
  from inbox_step_world[OF a[unfolded s]] assms show "stays inboxId t s s'"
    by (auto simp: stays_def s dest: move_stays)
qed

lemma copies_inbox_step: "steps (copies_only d todayListId) (inbox_step d todayListId inboxId x)"
  unfolding steps_def
proof (intro allI impI)
  fix s r s' assume a: "inbox_step d todayListId inboxId x s = (r, s')"
  obtain st w st' w' where s: "s = (st, w)" "s' = (st', w')" by (cases s; cases s') auto
  from inbox_step_world[OF a[unfolded s]] show "copies_only d todayListId s s'"
    using move_adds_copy_only[of x inboxId todayListId w _ w']
    by (auto simp: copies_only_def s)
qed

lemma one_way_inbox_step:
  assumes "inboxId \<noteq> todayListId"
  shows "steps (one_way inboxId todayListId) (inbox_step d todayListId inboxId x)"
  unfolding steps_def
proof (intro allI impI)
  fix s r s' assume a: "inbox_step d todayListId inboxId x s = (r, s')"
  obtain st w st' w' where s: "s = (st, w)" "s' = (st', w')" by (cases s; cases s') auto
  from inbox_step_world[OF a[unfolded s]] show "one_way inboxId todayListId s s'"
    using move_one_way[of x inboxId todayListId w _ w', OF _ assms]
    by (auto simp: one_way_def s)
qed

lemma inbox_loop_ok:
  assumes "for_each (inbox_step d todayListId inboxId) ts (st, w) = (Inr u, (st', w'))"
    and "inboxId \<noteq> todayListId"
  shows "inboxMoves st' = inboxMoves st + length (filter (due_today d) ts)
       \<and> (\<forall>x \<in> set ts. due_today d x \<longrightarrow>
             (\<exists>j. created_task j (move_new_task x) \<in> set (tasks w' todayListId))
             \<and> (\<forall>y \<in> set (tasks w' inboxId). task_id y \<noteq> task_id x))"
  using assms(1)
proof (induction ts arbitrary: st w)
  case Nil
  then show ?case by simp
next
  case (Cons x xs)
  from Cons.prems obtain st1 w1 where
    step: "inbox_step d todayListId inboxId x (st, w) = (Inr (), (st1, w1))" and
    rest: "for_each (inbox_step d todayListId inboxId) xs (st1, w1) = (Inr u, (st', w'))"
    by (cases rule: for_each_cases) auto
  note ih = Cons.IH[OF rest]
  have ow: "one_way inboxId todayListId (st1, w1) (st', w')"
    using rest by (rule stepsD[OF steps_for_each[OF reflp_one_way transp_one_way one_way_inbox_step[OF assms(2)]]])
  show ?case
  proof (cases "due_today d x")
    case False
    with inbox_step_world[OF step] ih show ?thesis by auto
  next
    case True
    with inbox_step_world[OF step] have st1: "st1 = st\<lparr>inboxMoves := inboxMoves st + 1\<rparr>"
      and mv: "move x inboxId todayListId w = (Inr (), w1)" by auto
    from move_ok[OF mv assms(2)] have
      c: "created_task (next_id w) (move_new_task x) \<in> set (tasks w1 todayListId)" and
      g: "\<forall>y \<in> set (tasks w1 inboxId). task_id y \<noteq> task_id x" by auto
    from c g ow have "created_task (next_id w) (move_new_task x) \<in> set (tasks w' todayListId)"
      "\<forall>y \<in> set (tasks w' inboxId). task_id y \<noteq> task_id x"
      by (auto simp: one_way_def)
    with ih st1 True show ?thesis by auto
  qed
qed

lemma processInboxTasks_world:
  assumes "processInboxTasks cfg todayListId inboxId (st, w) = (r, s')"
  shows "(\<exists>e w1. r = Inl e \<and> s' = (st, w1) \<and> tasks w1 = tasks w)
       \<or> (\<exists>w1. tasks w1 = tasks w
             \<and> for_each (inbox_step (formatDate cfg (clock w (reads w)) ''yyyy-MM-dd'') todayListId inboxId)
                  (tasks w inboxId) (st, w1) = (r, s'))"
  using assms unfolding processInboxTasks_def listAllTasks_def Tasks_list_def
  by (auto simp: in_world_eq new_Date_def dest!: remote_world elim!: bind_cases)

lemma distinct_same_id:
  assumes "distinct (map task_id ts)" "x \<in> set ts" "t \<in> set ts" "task_id x = task_id t"
  shows "x = t"
  using assms by (meson distinct_map inj_onD)

text \<open>
  C7. A task of the inbox with a recurrence rule, or without a due value, is still in the
  inbox after \<open>processInboxTasks\<close>, whatever the due date and however the run ends; the
  loop body does nothing for it. Every task the run adds to today's list is the copy of a
  task with a due value and no recurrence rule. The tasks of the inbox have distinct
  identifiers.
\<close>

theorem recurring_and_undated_tasks_stay:
  assumes "processInboxTasks cfg todayListId inboxId (st, w) = (r, (st', w'))"
    and "t \<in> set (tasks w inboxId)"
    and "truthy (recurrence t) \<or> \<not> truthy (due t)"
    and "distinct (map task_id (tasks w inboxId))"
  shows "t \<in> set (tasks w' inboxId)
       \<and> (\<forall>y \<in> set (tasks w' todayListId).
             y \<in> set (tasks w todayListId)
             \<or> (\<exists>x j. truthy (due x) \<and> \<not> truthy (recurrence x) \<and> y = created_task j (move_new_task x)))
       \<and> (\<forall>d. inbox_step d todayListId inboxId t = ret ())"
proof -
  let ?d = "formatDate cfg (clock w (reads w)) ''yyyy-MM-dd''"
  have nd: "\<not> due_today d t" for d using assms(3) by (auto simp: due_today_def)
  then have skip: "\<forall>d. inbox_step d todayListId inboxId t = ret ()"
    by (simp add: inbox_step_skip)
  from processInboxTasks_world[OF assms(1)]
  have "t \<in> set (tasks w' inboxId) \<and> copies_only ?d todayListId (st, w) (st', w')"
  proof (elim disjE exE conjE)
    fix e w1 assume "(st', w') = (st, w1)" "tasks w1 = tasks w"
    with assms(2) show ?thesis by (auto simp: copies_only_def)
  next
    fix w1 assume tw: "tasks w1 = tasks w" and
      loop: "for_each (inbox_step ?d todayListId inboxId) (tasks w inboxId) (st, w1) = (r, (st', w'))"
    have "steps (stays inboxId t) (for_each (inbox_step ?d todayListId inboxId) (tasks w inboxId))"
    proof (intro steps_for_each reflp_stays transp_stays stays_inbox_step impI)
      fix x assume x: "x \<in> set (tasks w inboxId)" and dx: "due_today ?d x"
      show "task_id x \<noteq> task_id t"
      proof
        assume "task_id x = task_id t"
        with distinct_same_id[OF assms(4) x assms(2)] have "x = t" by simp
        with dx nd show False by simp
      qed
    qed
    from stepsD[OF this loop] assms(2) tw have a: "t \<in> set (tasks w' inboxId)"
      by (simp add: stays_def)
    have "steps (copies_only ?d todayListId) (for_each (inbox_step ?d todayListId inboxId) (tasks w inboxId))"
      by (intro steps_for_each reflp_copies_only transp_copies_only copies_inbox_step)
    from stepsD[OF this loop] tw have "copies_only ?d todayListId (st, w) (st', w')"
      by (simp add: copies_only_def)
    with a show ?thesis by simp
  qed
  then show ?thesis using skip by (auto simp: copies_only_def due_today_def)
qed

text \<open>
  C8. \<open>processInboxTasks\<close> compares the first ten characters of \<open>due\<close> with today's
  date as \<open>formatDate\<close> renders it in the configured time zone. After a run that returns,
  a task of the inbox with a due value and no recurrence rule has left the inbox exactly
  when the two are equal, and then a copy of it is in today's list; \<open>inboxMoves\<close> has
  grown by the number of such tasks. A due value of \<open>2025-07-10T23:59:00Z\<close> and one of
  \<open>2025-07-10T00:00:00Z\<close> both have the date part \<open>2025-07-10\<close>.
\<close>

theorem due_date_only_matching:
  assumes "processInboxTasks cfg todayListId inboxId (st, w) = (Inr u, (st', w'))"
    and "inboxId \<noteq> todayListId"
    and "distinct (map task_id (tasks w inboxId))"
    and "t \<in> set (tasks w inboxId)"
    and "truthy (due t)" and "\<not> truthy (recurrence t)"
  shows "(t \<notin> set (tasks w' inboxId)
            \<longleftrightarrow> due_date t = formatDate cfg (clock w (reads w)) ''yyyy-MM-dd'')
       \<and> (due_date t = formatDate cfg (clock w (reads w)) ''yyyy-MM-dd''
            \<longrightarrow> (\<exists>j. created_task j (move_new_task t) \<in> set (tasks w' todayListId)))
       \<and> inboxMoves st' = inboxMoves st
            + length (filter (due_today (formatDate cfg (clock w (reads w)) ''yyyy-MM-dd'')) (tasks w inboxId))
       \<and> (\<forall>x. due x = Some ''2025-07-10T23:59:00Z'' \<or> due x = Some ''2025-07-10T00:00:00Z''
              \<longrightarrow> due_date x = ''2025-07-10'')"
proof -
  let ?d = "formatDate cfg (clock w (reads w)) ''yyyy-MM-dd''"
  from processInboxTasks_world[OF assms(1)] obtain w1 where tw: "tasks w1 = tasks w" and
    loop: "for_each (inbox_step ?d todayListId inboxId) (tasks w inboxId) (st, w1) = (Inr u, (st', w'))"
    by auto
  note ok = inbox_loop_ok[OF loop assms(2)]
  have dt: "due_today ?d t \<longleftrightarrow> due_date t = ?d" using assms(5,6) by (simp add: due_today_def)
  have moved: "due_date t = ?d \<Longrightarrow> t \<notin> set (tasks w' inboxId)
      \<and> (\<exists>j. created_task j (move_new_task t) \<in> set (tasks w' todayListId))"
    using ok assms(4) dt by blast
  have kept: "due_date t \<noteq> ?d \<Longrightarrow> t \<in> set (tasks w' inboxId)"
  proof -
    assume ne: "due_date t \<noteq> ?d"
    have "steps (stays inboxId t) (for_each (inbox_step ?d todayListId inboxId) (tasks w inboxId))"
    proof (intro steps_for_each reflp_stays transp_stays stays_inbox_step impI)
      fix x assume x: "x \<in> set (tasks w inboxId)" and dx: "due_today ?d x"
      show "task_id x \<noteq> task_id t"
      proof
        assume "task_id x = task_id t"
        with distinct_same_id[OF assms(3) x assms(4)] have "x = t" by simp
        with dx dt ne show False by simp
      qed
    qed
    from stepsD[OF this loop] assms(4) tw show ?thesis by (simp add: stays_def)
  qed
  have ex: "\<forall>x. due x = Some ''2025-07-10T23:59:00Z'' \<or> due x = Some ''2025-07-10T00:00:00Z''
              \<longrightarrow> due_date x = ''2025-07-10''"
    by (auto simp: due_date_def)
  from moved kept ok ex show ?thesis by blast
qed

lemma move_status: "move (t\<lparr>status := s\<rparr>) src dst = move t src dst"
  by (simp add: move_def move_new_task_def email_link_def notes_or_empty_def)

text \<open>
  C10. A completed task of the inbox, with no recurrence rule and due today, is relocated
  by a run of \<open>processInboxTasks\<close> that returns: no task with its identifier is left in
  the inbox and its copy is in today's list, with the status \<open>needsAction\<close>. The loop
  body treats it as it treats the same task with that status.
\<close>

theorem completed_inbox_task_is_reopened:
  assumes "processInboxTasks cfg todayListId inboxId (st, w) = (Inr u, (st', w'))"
    and "inboxId \<noteq> todayListId"
    and "t \<in> set (tasks w inboxId)"
    and "status t = Completed"
    and "truthy (due t)" and "\<not> truthy (recurrence t)"
    and "due_date t = formatDate cfg (clock w (reads w)) ''yyyy-MM-dd''"
  shows "(\<forall>y \<in> set (tasks w' inboxId). task_id y \<noteq> task_id t)
       \<and> (\<exists>j. created_task j (move_new_task t) \<in> set (tasks w' todayListId)
              \<and> status (created_task j (move_new_task t)) = NeedsAction)
       \<and> (\<forall>d. inbox_step d todayListId inboxId t
              = inbox_step d todayListId inboxId (t\<lparr>status := NeedsAction\<rparr>))"
proof -
  let ?d = "formatDate cfg (clock w (reads w)) ''yyyy-MM-dd''"
  from processInboxTasks_world[OF assms(1)] obtain w1 where tw: "tasks w1 = tasks w" and
    loop: "for_each (inbox_step ?d todayListId inboxId) (tasks w inboxId) (st, w1) = (Inr u, (st', w'))"
    by auto
  have dt: "due_today ?d t" using assms(5,6,7) by (simp add: due_today_def)
  from inbox_loop_ok[OF loop assms(2)] assms(3) dt have
    "(\<exists>j. created_task j (move_new_task t) \<in> set (tasks w' todayListId))
     \<and> (\<forall>y \<in> set (tasks w' inboxId). task_id y \<noteq> task_id t)" by blast
  moreover have "status (created_task j (move_new_task t)) = NeedsAction" for j
    by (simp add: created_task_def)
  moreover have "inbox_step d todayListId inboxId t
              = inbox_step d todayListId inboxId (t\<lparr>status := NeedsAction\<rparr>)" for d
    by (simp add: inbox_step_def due_date_def move_status)
  ultimately show ?thesis by blast
qed

text \<open>
  C6. A \<open>move\<close> that returns puts at the head of the destination the task the store
  creates from the resource of \<open>move_new_task\<close>. That resource does not depend on the
  identifier, status, recurrence rule or completion time of the source, and the new task
  has the status \<open>needsAction\<close>. When the source has no email link, title, notes and due
  value are those of the source.
\<close>

theorem move_copies_title_notes_due_only:
  assumes "move t src dst w = (Inr u, w')" and "src \<noteq> dst"
  shows "tasks w' dst = created_task (next_id w) (move_new_task t) # tasks w dst
       \<and> status (created_task (next_id w) (move_new_task t)) = NeedsAction
       \<and> move_new_task (t\<lparr>task_id := i, status := s, recurrence := rc, completed := c\<rparr>) = move_new_task t
       \<and> (email_link t = None \<longrightarrow>
            title (created_task (next_id w) (move_new_task t)) = title t
            \<and> task_notes (created_task (next_id w) (move_new_task t)) = Some (notes_or_empty t)
            \<and> due (created_task (next_id w) (move_new_task t)) = (if truthy (due t) then due t else None))"
proof -
  have "move_new_task (t\<lparr>task_id := i, status := s, recurrence := rc, completed := c\<rparr>) = move_new_task t"
    by (simp add: move_new_task_def email_link_def notes_or_empty_def)
  with move_ok(1)[OF assms] show ?thesis
    by (simp add: created_task_def move_new_task_no_link)
qed

lemma result_cases2:
  obtains r w where "(x :: (string + 'a) \<times> world) = (r, w)"
  by (cases x) auto

theorem recurring_and_undated_tasks_stay_witness:
  "stand_up \<in> set (tasks (snd (snd (processInboxTasks demo_config 5 1 (initial_stats 1000, today_world)))) 1)
   \<and> someday \<in> set (tasks (snd (snd (processInboxTasks demo_config 5 1 (initial_stats 1000, today_world)))) 1)"
proof -
  let ?run = "processInboxTasks demo_config 5 1 (initial_stats 1000, today_world)"
  obtain r st' w' where e: "?run = (r, (st', w'))" by (rule result_cases)
  have m1: "stand_up \<in> set (tasks today_world 1)" and m2: "someday \<in> set (tasks today_world 1)"
    by (simp_all add: today_world_def demo_world_def demo_tasks_def)
  have s1: "truthy (recurrence stand_up) \<or> \<not> truthy (due stand_up)"
    by (simp add: stand_up_def plain_task_def truthy_def)
  have s2: "truthy (recurrence someday) \<or> \<not> truthy (due someday)"
    by (simp add: someday_def plain_task_def truthy_def)
  have d: "distinct (map task_id (tasks today_world 1))" by code_simp
  from recurring_and_undated_tasks_stay [OF e m1 s1 d] recurring_and_undated_tasks_stay [OF e m2 s2 d] e
  show ?thesis by simp
qed

theorem due_date_only_matching_witness:
  "pay_rent \<notin> set (tasks (snd (snd (processInboxTasks demo_config 5 1 (initial_stats 1000, today_world)))) 1)
   \<and> dentist \<in> set (tasks (snd (snd (processInboxTasks demo_config 5 1 (initial_stats 1000, today_world)))) 1)
   \<and> inboxMoves (fst (snd (processInboxTasks demo_config 5 1 (initial_stats 1000, today_world)))) = 1"
proof -
  let ?run = "processInboxTasks demo_config 5 1 (initial_stats 1000, today_world)"
  let ?d = "formatDate demo_config (clock today_world (reads today_world)) ''yyyy-MM-dd''"
  obtain r st' w' where e: "?run = (r, (st', w'))" by (rule result_cases)
  have "fst ?run = Inr ()" by code_simp
  with e have e': "?run = (Inr (), (st', w'))" by simp
  have ne: "(1::nat) \<noteq> 5" by simp
  have d: "distinct (map task_id (tasks today_world 1))" by code_simp
  have m1: "pay_rent \<in> set (tasks today_world 1)" and m2: "dentist \<in> set (tasks today_world 1)"
    by (simp_all add: today_world_def demo_world_def demo_tasks_def)
  have p: "truthy (due pay_rent)" "\<not> truthy (recurrence pay_rent)" "due_date pay_rent = ?d"
    by code_simp+
  have q: "truthy (due dentist)" "\<not> truthy (recurrence dentist)" "due_date dentist \<noteq> ?d"
    by code_simp+
  have n: "length (filter (due_today ?d) (tasks today_world 1)) = 1" by code_simp
  from due_date_only_matching [OF e' ne d m1 p(1,2)] p(3) n
  have "pay_rent \<notin> set (tasks w' 1)" "inboxMoves st' = 1" by (simp_all add: initial_stats_def)
  moreover from due_date_only_matching [OF e' ne d m2 q(1,2)] q(3)
  have "dentist \<in> set (tasks w' 1)" by simp
  ultimately show ?thesis using e by simp
qed

theorem completed_inbox_task_is_reopened_witness:
  "status pay_rent = Completed
   \<and> (\<exists>j. created_task j (move_new_task pay_rent)
             \<in> set (tasks (snd (snd (processInboxTasks demo_config 5 1 (initial_stats 1000, today_world)))) 5)
          \<and> status (created_task j (move_new_task pay_rent)) = NeedsAction)"
proof -
  let ?run = "processInboxTasks demo_config 5 1 (initial_stats 1000, today_world)"
  let ?d = "formatDate demo_config (clock today_world (reads today_world)) ''yyyy-MM-dd''"
  obtain r st' w' where e: "?run = (r, (st', w'))" by (rule result_cases)
  have "fst ?run = Inr ()" by code_simp
  with e have e': "?run = (Inr (), (st', w'))" by simp
  have ne: "(1::nat) \<noteq> 5" by simp
  have m1: "pay_rent \<in> set (tasks today_world 1)"
    by (simp add: today_world_def demo_world_def demo_tasks_def)
  have p: "status pay_rent = Completed" "truthy (due pay_rent)" "\<not> truthy (recurrence pay_rent)"
    "due_date pay_rent = ?d"
    by code_simp+
  from completed_inbox_task_is_reopened [OF e' ne m1 p] e p(1) show ?thesis by simp
qed

theorem move_copies_title_notes_due_only_witness:
  "status mail_task = Completed
   \<and> tasks (snd (move mail_task 1 5 today_world)) 5 = [created_task 100 (move_new_task mail_task)]
   \<and> status (created_task 100 (move_new_task mail_task)) = NeedsAction"
proof -
  obtain r w' where e: "move mail_task 1 5 today_world = (r, w')" by (rule result_cases2)
  have "fst (move mail_task 1 5 today_world) = Inr ()" by code_simp
  with e have e': "move mail_task 1 5 today_world = (Inr (), w')" by simp
  have ne: "(1::nat) \<noteq> 5" by simp
  have n: "next_id today_world = 100" "tasks today_world 5 = []" "status mail_task = Completed"
    by (simp_all add: today_world_def demo_world_def demo_tasks_def mail_task_def)
  from move_copies_title_notes_due_only [OF e' ne] n e show ?thesis by simp
qed

section \<open>The tracked migration in the store\<close>

text \<open>
  The link between \<open>migrateIncompleteTasks\<close> on the store and \<open>migrated\<close>: a run with
  tracking enabled that returns leaves, for every incomplete task of the source list, the
  task created from \<open>migrated\<close> in the destination.
\<close>

lemma updateNotes_world:
  assumes "updateNotes lid tid n w = (Inr t', w')"
  shows "\<exists>t. find (\<lambda>x. task_id x = tid) (tasks w lid) = Some t \<and> t' = t\<lparr>task_notes := Some n\<rparr>"
    and "next_id w' = next_id w"
    and "\<And>x. x \<noteq> lid \<Longrightarrow> tasks w' x = tasks w x"
  using assms unfolding updateNotes_def Tasks_patch_def
  by (auto dest!: remote_world elim!: bind_cases split: option.splits)

lemma migrate_task_copy:
  assumes "migrate_task True src dst t w = (Inr u, w')"
    and "src \<noteq> dst"
    and "find (\<lambda>x. task_id x = task_id t) (tasks w src) = Some t"
  shows "tasks w' dst = created_task (next_id w) (migrated t) # tasks w dst"
proof -
  from assms(1) obtain t' w1 where
    p: "updateNotes src (task_id t) (rollover_notes (notes_or_empty t)) w = (Inr t', w1)" and
    m: "move t' src dst w1 = (Inr u, w')"
    by (auto simp: migrate_task_def elim!: bind_cases)
  from updateNotes_world[OF p] assms(2,3) have
    t': "t' = t\<lparr>task_notes := Some (rollover_notes (notes_or_empty t))\<rparr>" and
    n: "next_id w1 = next_id w" and d: "tasks w1 dst = tasks w dst" by auto
  from move_ok(1)[OF m assms(2)] t' n d show ?thesis by (simp add: migrated_def)
qed

lemma filter_patched:
  "filter (\<lambda>y. task_id y \<noteq> tid) (map (\<lambda>x. if task_id x = tid then x\<lparr>task_notes := Some n\<rparr> else x) xs)
   = filter (\<lambda>y. task_id y \<noteq> tid) xs"
  by (induction xs) auto

lemma find_other_id:
  "i \<noteq> tid \<Longrightarrow> find (\<lambda>y. task_id y = i) (filter (\<lambda>y. task_id y \<noteq> tid) xs) = find (\<lambda>y. task_id y = i) xs"
  by (induction xs) auto

lemma migrate_task_source:
  assumes "migrate_task True src dst t w = (Inr u, w')" and "src \<noteq> dst"
  shows "tasks w' src = filter (\<lambda>y. task_id y \<noteq> task_id t) (tasks w src)"
proof -
  from assms(1) obtain t' w1 where
    p: "updateNotes src (task_id t) (rollover_notes (notes_or_empty t)) w = (Inr t', w1)" and
    m: "move t' src dst w1 = (Inr u, w')"
    by (auto simp: migrate_task_def elim!: bind_cases)
  from p have id: "task_id t' = task_id t" and
    s1: "tasks w1 src = map (\<lambda>x. if task_id x = task_id t
            then x\<lparr>task_notes := Some (rollover_notes (notes_or_empty t))\<rparr> else x) (tasks w src)"
    unfolding updateNotes_def Tasks_patch_def
    by (auto dest!: remote_world find_Some_iff[THEN iffD1] elim!: bind_cases split: option.splits)
  from move_ok(2)[OF m assms(2)] id s1 show ?thesis by (simp add: filter_patched)
qed

lemma migrate_task_grows:
  assumes "src \<noteq> dst"
  shows "steps (\<lambda>w w'. set (tasks w dst) \<subseteq> set (tasks w' dst)) (migrate_task b src dst t)"
  unfolding steps_def
proof (intro allI impI)
  fix w r w' assume a: "migrate_task b src dst t w = (r, w')"
  have mv: "set (tasks v dst) \<subseteq> set (tasks v' dst)" if "move x src dst v = (q, v')" for x v q v'
    using move_one_way(1)[OF that assms] .
  show "set (tasks w dst) \<subseteq> set (tasks w' dst)"
  proof (cases b)
    case False
    with a mv show ?thesis by (simp add: migrate_task_def)
  next
    case True
    with a have "bind (updateNotes src (task_id t) (rollover_notes (notes_or_empty t)))
             (\<lambda>updatedTask. move updatedTask src dst) w = (r, w')"
      by (simp add: migrate_task_def)
    then show ?thesis
    proof (cases rule: bind_cases)
      case (fail e)
      then have "tasks w' dst = tasks w dst"
        using assms unfolding updateNotes_def Tasks_patch_def
        by (auto dest!: remote_world elim!: bind_cases split: option.splits)
      then show ?thesis by simp
    next
      case (ok t' w1)
      from updateNotes_world(3)[OF ok(1), of dst] assms have "tasks w1 dst = tasks w dst" by simp
      with mv[OF ok(2)] show ?thesis by simp
    qed
  qed
qed

lemma migrate_loop_copies:
  assumes "for_each (migrate_task True src dst) ts w = (Inr u, w')"
    and "src \<noteq> dst"
    and "\<forall>x \<in> set ts. find (\<lambda>y. task_id y = task_id x) (tasks w src) = Some x"
    and "distinct (map task_id ts)"
  shows "\<forall>x \<in> set ts. \<exists>j. created_task j (migrated x) \<in> set (tasks w' dst)"
  using assms(1,3,4)
proof (induction ts arbitrary: w)
  case Nil
  then show ?case by simp
next
  case (Cons t ts)
  from Cons.prems(1) obtain w1 where
    step: "migrate_task True src dst t w = (Inr (), w1)" and
    rest: "for_each (migrate_task True src dst) ts w1 = (Inr u, w')"
    by (cases rule: for_each_cases) auto
  from Cons.prems(2) have ft: "find (\<lambda>y. task_id y = task_id t) (tasks w src) = Some t" by simp
  from migrate_task_copy[OF step assms(2) ft]
  have c: "created_task (next_id w) (migrated t) \<in> set (tasks w1 dst)" by simp
  have "steps (\<lambda>w w'. set (tasks w dst) \<subseteq> set (tasks w' dst)) (for_each (migrate_task True src dst) ts)"
    by (intro steps_for_each migrate_task_grows[OF assms(2)]) (auto simp: reflp_def transp_def)
  from stepsD[OF this rest] c have here: "created_task (next_id w) (migrated t) \<in> set (tasks w' dst)"
    by auto
  have f1: "\<forall>x \<in> set ts. find (\<lambda>y. task_id y = task_id x) (tasks w1 src) = Some x"
  proof
    fix x assume x: "x \<in> set ts"
    have "task_id x \<noteq> task_id t"
    proof
      assume "task_id x = task_id t"
      with x have "task_id t \<in> task_id ` set ts" by (metis imageI)
      with Cons.prems(3) show False by simp
    qed
    with Cons.prems(2) x show "find (\<lambda>y. task_id y = task_id x) (tasks w1 src) = Some x"
      by (simp add: migrate_task_source[OF step assms(2)] find_other_id)
  qed
  from Cons.prems(3) have "distinct (map task_id ts)" by simp
  from Cons.IH[OF rest f1 this] here show ?case by auto
qed

lemma find_distinct_id:
  assumes "distinct (map task_id xs)" "x \<in> set xs"
  shows "find (\<lambda>y. task_id y = task_id x) xs = Some x"
  using assms
proof (induction xs)
  case Nil
  then show ?case by simp
next
  case (Cons a xs)
  show ?case
  proof (cases "task_id a = task_id x")
    case True
    with Cons.prems have "a = x" by (metis distinct_same_id list.set_intros(1))
    then show ?thesis by simp
  next
    case False
    with Cons show ?thesis by auto
  qed
qed

lemma migrateIncompleteTasks_copies:
  assumes "migrateIncompleteTasks cfg src dst w = (Inr n, w')"
    and "trackRolloverCount cfg" and "src \<noteq> dst"
    and "distinct (map task_id (tasks w src))"
  shows "n = length (filter (\<lambda>t. status t = NeedsAction) (tasks w src))"
    and "\<forall>t \<in> set (tasks w src). status t = NeedsAction
           \<longrightarrow> (\<exists>j. created_task j (migrated t) \<in> set (tasks w' dst))"
proof -
  let ?ts = "filter (\<lambda>t. status t = NeedsAction) (tasks w src)"
  let ?w0 = "w\<lparr>faults := tl (faults w)\<rparr>"
  from assms(1,2) have "for_each (migrate_task True src dst) ?ts ?w0 = (Inr (), w') \<and> n = length ?ts"
    unfolding migrateIncompleteTasks_def listIncompleteTasks_def Tasks_list_def
    by (auto simp: ret_def dest!: remote_world elim!: bind_cases)
  then obtain w0 where tw: "tasks w0 = tasks w" and
    loop: "for_each (migrate_task True src dst) ?ts w0 = (Inr (), w')" and n: "n = length ?ts"
    by (intro that[of ?w0]) simp_all
  from n show "n = length ?ts" .
  have f: "\<forall>x \<in> set ?ts. find (\<lambda>y. task_id y = task_id x) (tasks w0 src) = Some x"
    using assms(4) tw by (auto intro: find_distinct_id)
  have d: "distinct (map task_id ?ts)" using assms(4) by (rule distinct_map_filter)
  from migrate_loop_copies[OF loop assms(3) f d]
  show "\<forall>t \<in> set (tasks w src). status t = NeedsAction
           \<longrightarrow> (\<exists>j. created_task j (migrated t) \<in> set (tasks w' dst))" by auto
qed

end
